theory Spec2Isabelle
  imports Complex_Main
begin

section \<open>Text\<close>

text \<open>
  Python text is modelled as \<^typ>\<open>string\<close>: a list of characters with code points
  0 to 255. The character classes below are those of Python 3 on that range.
\<close>

definition isspace :: "char \<Rightarrow> bool" where
  \<comment> \<open>\<^verbatim>\<open>str.isspace\<close>, which is also the class \<^verbatim>\<open>\s\<close> of \<^verbatim>\<open>re\<close> on text patterns\<close>
  "isspace c =
     (let n = (of_char c :: nat)
      in (9 \<le> n \<and> n \<le> 13) \<or> (28 \<le> n \<and> n \<le> 32) \<or> n = 133 \<or> n = 160)"

definition strip :: "string \<Rightarrow> string" where
  \<comment> \<open>\<^verbatim>\<open>s.strip()\<close>\<close>
  "strip s = rev (dropWhile isspace (rev (dropWhile isspace s)))"

section \<open>JSON values\<close>

text \<open>
  The values \<^verbatim>\<open>json.loads\<close> builds. A \<^verbatim>\<open>dict\<close> keeps its keys in insertion order, so
  it is an association list; a lookup reads the first entry of a key. A float is read only
  for its truth value, which is that of being nonzero.
\<close>

datatype json =
    JNull
  | JBool bool
  | JInt int
  | JFloat real
  | JStr string
  | JList "json list"
  | JDict "(string \<times> json) list"

type_synonym dict = "(string \<times> json) list"

definition dict_get :: "dict \<Rightarrow> string \<Rightarrow> json option" where
  \<comment> \<open>\<^verbatim>\<open>d.get(k)\<close>, with \<open>None\<close> of the option type for an absent key\<close>
  "dict_get d k = map_of d k"

fun dict_set :: "dict \<Rightarrow> string \<Rightarrow> json \<Rightarrow> dict" where
  \<comment> \<open>\<^verbatim>\<open>d[k] = v\<close>: an existing key keeps its place, a new key goes last\<close>
  "dict_set [] k v = [(k, v)]"
| "dict_set ((k', v') # d) k v =
     (if k' = k then (k, v) # d else (k', v') # dict_set d k v)"

definition dict_pop :: "dict \<Rightarrow> string \<Rightarrow> dict" where
  \<comment> \<open>\<^verbatim>\<open>d.pop(k, None)\<close>, the popped value dropped\<close>
  "dict_pop d k = filter (\<lambda>kv. fst kv \<noteq> k) d"

fun truthy :: "json \<Rightarrow> bool" where
  "truthy JNull = False"
| "truthy (JBool b) = b"
| "truthy (JInt i) = (i \<noteq> 0)"
| "truthy (JFloat r) = (r \<noteq> 0)"
| "truthy (JStr s) = (s \<noteq> [])"
| "truthy (JList xs) = (xs \<noteq> [])"
| "truthy (JDict d) = (d \<noteq> [])"

fun is_list :: "json \<Rightarrow> bool" where
  "is_list (JList xs) = True"
| "is_list _ = False"

section \<open>Errors\<close>

text \<open>
  The exceptions of the libraries, and the failures of this program: \<open>Raised\<close> is an
  exception of a library that nothing caught.
\<close>

datatype exn = JSONDecodeError | ParseError | ValueError

datatype error =
    Raised exn
  | TopLevelNotObject
  | NoJsonFound
  | NotAnObject
  | MissingTopLevelKeys "string list"
  | MissingStepsList
  | StepNotObject nat
  | StepMissingKey nat string
  | StepParamsNotList nat

definition raised :: "exn + 'a \<Rightarrow> error + 'a" where
  \<comment> \<open>a call of a library outside of any \<^verbatim>\<open>try\<close>: its exception goes on to the caller\<close>
  "raised r = (case r of Inl e \<Rightarrow> Inl (Raised e) | Inr v \<Rightarrow> Inr v)"

section \<open>Configuration\<close>

definition REQUIRED_TOP_LEVEL_KEYS :: "string list" where
  "REQUIRED_TOP_LEVEL_KEYS =
     [''name'', ''description'', ''preconditions'', ''tags'', ''automated_steps'',
      ''artifacts'', ''references'', ''diagnostics'']"

definition REQUIRED_STEP_KEYS :: "string list" where
  "REQUIRED_STEP_KEYS = [''id'', ''keyword'', ''params'']"

section \<open>Repair: \<^verbatim>\<open>ensure_step_defaults\<close>\<close>

fun digits :: "nat \<Rightarrow> string" where
  "digits n =
     (if n < 10 then [char_of (48 + n)]
      else digits (n div 10) @ [char_of (48 + n mod 10)])"

declare digits.simps [simp del]

definition step_id :: "nat \<Rightarrow> string" where
  \<comment> \<open>\<^verbatim>\<open>f"S{i:03d}"\<close>\<close>
  "step_id i = CHR ''S'' # replicate (3 - length (digits i)) CHR ''0'' @ digits i"

definition fill_id :: "nat \<Rightarrow> dict \<Rightarrow> dict" where
  "fill_id i st =
     (if \<not> (case dict_get st ''id'' of None \<Rightarrow> False | Some v \<Rightarrow> truthy v)
      then dict_set st ''id'' (JStr (step_id i)) else st)"

definition fill_keyword :: "dict \<Rightarrow> dict" where
  "fill_keyword st =
     (if dict_get st ''keyword'' = None \<or> dict_get st ''keyword'' = Some JNull
      then dict_set st ''keyword'' (JStr []) else st)"

definition fill_params :: "dict \<Rightarrow> dict" where
  "fill_params st =
     (if dict_get st ''params'' = None \<or> dict_get st ''params'' = Some JNull
      then dict_set st ''params'' (JList [])
      else (case dict_get st ''params'' of
              Some v \<Rightarrow> if \<not> is_list v then dict_set st ''params'' (JList [v]) else st
            | None \<Rightarrow> st))"

definition repair_step :: "nat \<Rightarrow> dict \<Rightarrow> dict" where
  \<comment> \<open>the body of the loop, for an entry that is a dict\<close>
  "repair_step i st = fill_params (fill_keyword (fill_id i st))"

fun repair_steps :: "nat \<Rightarrow> json list \<Rightarrow> json list" where
  \<comment> \<open>\<^verbatim>\<open>for i, st in enumerate(steps, start=i)\<close>\<close>
  "repair_steps i [] = []"
| "repair_steps i (JDict st # rest) = JDict (repair_step i st) # repair_steps (Suc i) rest"
| "repair_steps i (st # rest) = st # repair_steps (Suc i) rest"

definition ensure_step_defaults :: "dict \<Rightarrow> dict" where
  "ensure_step_defaults payload =
     (case dict_get payload ''automated_steps'' of
        Some (JList steps) \<Rightarrow>
          dict_set payload ''automated_steps'' (JList (repair_steps 1 steps))
      | _ \<Rightarrow> payload)"

section \<open>Validation: \<^verbatim>\<open>validate_payload\<close>\<close>

definition validate_step :: "nat \<Rightarrow> json \<Rightarrow> error + unit" where
  "validate_step i st =
     (case st of
        JDict d \<Rightarrow>
          (case filter (\<lambda>k. dict_get d k = None) REQUIRED_STEP_KEYS of
             k # _ \<Rightarrow> Inl (StepMissingKey i k)
           | [] \<Rightarrow>
               (case dict_get d ''params'' of
                  Some (JList _) \<Rightarrow> Inr ()
                | _ \<Rightarrow> Inl (StepParamsNotList i)))
      | _ \<Rightarrow> Inl (StepNotObject i))"

fun validate_steps :: "nat \<Rightarrow> json list \<Rightarrow> error + unit" where
  \<comment> \<open>\<^verbatim>\<open>for i, st in enumerate(steps)\<close>, stopping at the first raise\<close>
  "validate_steps i [] = Inr ()"
| "validate_steps i (st # rest) =
     (case validate_step i st of
        Inl e \<Rightarrow> Inl e
      | Inr _ \<Rightarrow> validate_steps (Suc i) rest)"

definition validate_payload :: "dict \<Rightarrow> error + unit" where
  "validate_payload payload =
     (let missing = filter (\<lambda>k. dict_get payload k = None) REQUIRED_TOP_LEVEL_KEYS
      in if missing \<noteq> [] then Inl (MissingTopLevelKeys missing)
         else (case dict_get payload ''automated_steps'' of
                 Some (JList steps) \<Rightarrow>
                   if steps = [] then Inl MissingStepsList else validate_steps 0 steps
               | _ \<Rightarrow> Inl MissingStepsList))"

section \<open>Merging the tracker's steps: the tail of \<^verbatim>\<open>run_conversion\<close>\<close>

record step_record =
  action :: string
  expected :: string

definition step_json :: "step_record \<Rightarrow> json" where
  \<comment> \<open>the dict with the keys \<^verbatim>\<open>action\<close> and \<^verbatim>\<open>expected\<close>\<close>
  "step_json s = JDict [(''action'', JStr (action s)), (''expected'', JStr (expected s))]"

definition merge_references :: "dict \<Rightarrow> step_record list \<Rightarrow> dict" where
  "merge_references payload azure_steps =
     (let refs = (case dict_get payload ''references'' of Some (JDict r) \<Rightarrow> r | _ \<Rightarrow> []);
          refs = dict_set refs ''steps'' (JList (map step_json azure_steps))
      in dict_set payload ''references'' (JDict refs))"

definition pop_meta :: "dict \<Rightarrow> dict" where
  "pop_meta payload =
     dict_pop (dict_pop (dict_pop payload ''required_top_level_keys'') ''required_keys'')
       ''azure_steps''"

definition finish_conversion :: "dict \<Rightarrow> step_record list \<Rightarrow> error + dict" where
  \<comment> \<open>\<^verbatim>\<open>run_conversion\<close> from the repair on, \<open>payload\<close> being the extracted object\<close>
  "finish_conversion payload azure_steps =
     (let payload = pop_meta (merge_references (ensure_step_defaults payload) azure_steps)
      in case validate_payload payload of
           Inl e \<Rightarrow> Inl e
         | Inr _ \<Rightarrow> Inr payload)"

section \<open>Extraction: \<^verbatim>\<open>extract_json_object\<close>\<close>

definition upto_last_close :: "string \<Rightarrow> string option" where
  \<comment> \<open>\<^verbatim>\<open>.*\}\<close> with DOTALL, matched at the head of \<open>s\<close>: the longest prefix that ends in a
      closing brace\<close>
  "upto_last_close s =
     (let r = dropWhile (\<lambda>c. c \<noteq> CHR ''}'') (rev s)
      in if r = [] then None else Some (rev r))"

fun search_braces :: "string \<Rightarrow> string option" where
  \<comment> \<open>\<^verbatim>\<open>re.search(r"\{.*\}", text, flags=re.DOTALL)\<close> and its \<^verbatim>\<open>group(0)\<close>: the leftmost
      start at which the pattern matches\<close>
  "search_braces [] = None"
| "search_braces (c # cs) =
     (if c = CHR ''{'' then
        (case upto_last_close cs of
           Some r \<Rightarrow> Some (c # r)
         | None \<Rightarrow> search_braces cs)
      else search_braces cs)"

definition loads_dict :: "(string \<Rightarrow> exn + json) \<Rightarrow> string \<Rightarrow> error \<Rightarrow> error + dict" where
  \<comment> \<open>\<^verbatim>\<open>obj = json.loads(t)\<close>, then the \<^verbatim>\<open>isinstance(obj, dict)\<close> test that raises \<open>e\<close>\<close>
  "loads_dict loads t e =
     (case loads t of
        Inl x \<Rightarrow> Inl (Raised x)
      | Inr (JDict d) \<Rightarrow> Inr d
      | Inr _ \<Rightarrow> Inl e)"

definition extract_json_object :: "(string \<Rightarrow> exn + json) \<Rightarrow> string \<Rightarrow> error + dict" where
  \<comment> \<open>\<open>loads\<close> is \<^verbatim>\<open>json.loads\<close>, \<open>Inl\<close> when it raises. The first attempt sits in
      \<^verbatim>\<open>try ... except Exception: pass\<close>, the second is not guarded. The argument is a
      text, on which \<^verbatim>\<open>text or ""\<close> is the text itself.\<close>
  "extract_json_object loads text0 =
     (let text = strip text0
      in case loads_dict loads text TopLevelNotObject of
           Inr obj \<Rightarrow> Inr obj
         | Inl _ \<Rightarrow>
             (case search_braces text of
                None \<Rightarrow> Inl NoJsonFound
              | Some candidate \<Rightarrow> loads_dict loads candidate NotAnObject))"

section \<open>The steps field: \<^verbatim>\<open>parse_steps_from_tcm_field\<close>\<close>

subsection \<open>Character classes and case\<close>

definition lower :: "char \<Rightarrow> char" where
  \<comment> \<open>\<^verbatim>\<open>str.lower\<close> on one character\<close>
  "lower c =
     (let n = (of_char c :: nat)
      in if (65 \<le> n \<and> n \<le> 90) \<or> (192 \<le> n \<and> n \<le> 222 \<and> n \<noteq> 215)
         then char_of (n + 32) else c)"

definition isword :: "char \<Rightarrow> bool" where
  \<comment> \<open>the class \<^verbatim>\<open>\w\<close>\<close>
  "isword c =
     (let n = (of_char c :: nat)
      in (48 \<le> n \<and> n \<le> 57) \<or> (65 \<le> n \<and> n \<le> 90) \<or> n = 95 \<or> (97 \<le> n \<and> n \<le> 122)
         \<or> n = 170 \<or> n = 178 \<or> n = 179 \<or> n = 181 \<or> n = 185 \<or> n = 186
         \<or> (188 \<le> n \<and> n \<le> 190) \<or> (192 \<le> n \<and> n \<noteq> 215 \<and> n \<noteq> 247))"

definition isdec :: "char \<Rightarrow> bool" where
  \<comment> \<open>\<^verbatim>\<open>[0-9]\<close>, and \<^verbatim>\<open>\d\<close> on this range\<close>
  "isdec c = (c \<in> set ''0123456789'')"

definition ishex :: "char \<Rightarrow> bool" where
  \<comment> \<open>\<^verbatim>\<open>[0-9a-fA-F]\<close>\<close>
  "ishex c = (c \<in> set ''0123456789abcdefABCDEF'')"

definition isname :: "char \<Rightarrow> bool" where
  \<comment> \<open>\<^verbatim>\<open>[^\t\n\f <&#;]\<close>\<close>
  "isname c =
     (c \<notin> {CHR 0x09, CHR 0x0A, CHR 0x0C, CHR '' '', CHR ''<'', CHR ''&'', CHR ''#'', CHR '';''})"

definition isctrl :: "char \<Rightarrow> bool" where
  \<comment> \<open>\<^verbatim>\<open>[\x00-\x08\x0B\x0C\x0E-\x1F]\<close>\<close>
  "isctrl c =
     (let n = (of_char c :: nat) in n \<le> 8 \<or> n = 11 \<or> n = 12 \<or> (14 \<le> n \<and> n \<le> 31))"

definition ci_starts :: "string \<Rightarrow> string \<Rightarrow> bool" where
  \<comment> \<open>the lower-case literal \<open>p\<close> matches at the head of \<open>s\<close> under IGNORECASE\<close>
  "ci_starts p s = (map lower (take (length p) s) = p)"

fun contains :: "string \<Rightarrow> string \<Rightarrow> bool" where
  \<comment> \<open>\<^verbatim>\<open>p in s\<close>\<close>
  "contains p [] = (p = [])"
| "contains p (c # cs) = (take (length p) (c # cs) = p \<or> contains p cs)"

subsection \<open>\<^verbatim>\<open>html.unescape\<close>\<close>

definition semicolon :: "string \<Rightarrow> nat" where
  \<comment> \<open>\<^verbatim>\<open>;?\<close>: the number of characters it takes\<close>
  "semicolon s = (case s of [] \<Rightarrow> 0 | c # _ \<Rightarrow> if c = CHR '';'' then 1 else 0)"

definition charref_len :: "string \<Rightarrow> nat" where
  \<comment> \<open>the length of group 1 of \<^verbatim>\<open>_charref\<close> matched right after an ampersand, 0 when the
      pattern does not match there\<close>
  "charref_len cs =
     (case cs of
        [] \<Rightarrow> 0
      | c # ds \<Rightarrow>
          if c = CHR ''#'' then
            (let n = length (takeWhile isdec ds)
             in if 0 < n then 1 + n + semicolon (drop n ds)
                else (case ds of
                        [] \<Rightarrow> 0
                      | x # hs \<Rightarrow>
                          if x = CHR ''x'' \<or> x = CHR ''X'' then
                            (let m = length (takeWhile ishex hs)
                             in if 0 < m then 2 + m + semicolon (drop m hs) else 0)
                          else 0))
          else
            (let n = min 32 (length (takeWhile isname cs))
             in if 0 < n then n + semicolon (drop n cs) else 0))"

fun charref_sub :: "(string \<Rightarrow> exn + string) \<Rightarrow> string \<Rightarrow> exn + string" where
  \<comment> \<open>\<^verbatim>\<open>_charref.sub(_replace_charref, s)\<close>: the matches are replaced from left to right, and
      an exception of the callback ends the substitution\<close>
  "charref_sub replace_charref [] = Inr []"
| "charref_sub replace_charref (c # cs) =
     (if c = CHR ''&'' \<and> 0 < charref_len cs then
        (case replace_charref (take (charref_len cs) cs) of
           Inl e \<Rightarrow> Inl e
         | Inr r \<Rightarrow>
             (case charref_sub replace_charref (drop (charref_len cs) cs) of
                Inl e \<Rightarrow> Inl e
              | Inr rest \<Rightarrow> Inr (r @ rest)))
      else
        (case charref_sub replace_charref cs of
           Inl e \<Rightarrow> Inl e
         | Inr rest \<Rightarrow> Inr (c # rest)))"

definition unescape :: "(string \<Rightarrow> exn + string) \<Rightarrow> string \<Rightarrow> exn + string" where
  \<comment> \<open>\<open>replace_charref\<close> is the library's \<^verbatim>\<open>_replace_charref\<close> on the text of group 1, \<open>Inl\<close>
      when it raises: its table of names and its numeric references reach beyond the
      characters of the model, and its call of \<^verbatim>\<open>int\<close> raises \<^verbatim>\<open>ValueError\<close> on a decimal
      reference longer than the limit of the interpreter\<close>
  "unescape replace_charref s =
     (if CHR ''&'' \<notin> set s then Inr s else charref_sub replace_charref s)"

subsection \<open>\<^verbatim>\<open>_clean\<close>\<close>

fun sub_tags :: "string \<Rightarrow> string" where
  \<comment> \<open>\<^verbatim>\<open>re.sub(r"<[^>]+>", " ", x)\<close>\<close>
  "sub_tags [] = []"
| "sub_tags (c # cs) =
     (let n = length (takeWhile (\<lambda>d. d \<noteq> CHR ''>'') cs)
      in if c = CHR ''<'' \<and> 0 < n \<and> n < length cs
         then CHR '' '' # sub_tags (drop (Suc n) cs)
         else c # sub_tags cs)"

function sub_spaces :: "string \<Rightarrow> string" where
  \<comment> \<open>\<^verbatim>\<open>re.sub(r"\s+", " ", x)\<close>\<close>
  "sub_spaces [] = []"
| "sub_spaces (c # cs) =
     (if isspace c then CHR '' '' # sub_spaces (dropWhile isspace cs)
      else c # sub_spaces cs)"
  by pat_completeness auto
termination
  by (relation "measure length") (auto simp: less_Suc_eq_le length_dropWhile_le)

definition clean :: "(string \<Rightarrow> exn + string) \<Rightarrow> string \<Rightarrow> exn + string" where
  "clean replace_charref x =
     (case unescape replace_charref x of
        Inl e \<Rightarrow> Inl e
      | Inr u \<Rightarrow> Inr (strip (sub_spaces (sub_tags u))))"

subsection \<open>\<^verbatim>\<open>_sanitize_for_xml\<close>\<close>

definition xml_entity :: "string \<Rightarrow> bool" where
  \<comment> \<open>what the negative lookahead looks for after an ampersand, under IGNORECASE\<close>
  "xml_entity cs =
     (ci_starts ''lt;'' cs \<or> ci_starts ''gt;'' cs \<or> ci_starts ''amp;'' cs
      \<or> ci_starts ''apos;'' cs \<or> ci_starts ''quot;'' cs
      \<or> (ci_starts ''#'' cs \<and> takeWhile isdec (drop 1 cs) \<noteq> []
          \<and> ci_starts '';'' (dropWhile isdec (drop 1 cs)))
      \<or> (ci_starts ''#x'' cs \<and> takeWhile ishex (drop 2 cs) \<noteq> []
          \<and> ci_starts '';'' (dropWhile ishex (drop 2 cs))))"

fun escape_amps :: "string \<Rightarrow> string" where
  "escape_amps [] = []"
| "escape_amps (c # cs) =
     (if c = CHR ''&'' \<and> \<not> xml_entity cs then ''&amp;'' @ escape_amps cs
      else c # escape_amps cs)"

definition sanitize_for_xml :: "string \<Rightarrow> string" where
  "sanitize_for_xml s = escape_amps (filter (\<lambda>c. \<not> isctrl c) s)"

subsection \<open>The region of the root element\<close>

definition word_boundary :: "string \<Rightarrow> bool" where
  \<comment> \<open>\<^verbatim>\<open>\b\<close> right after the word character that ends \<^verbatim>\<open><steps\<close>, \<open>s\<close> being the text that
      follows\<close>
  "word_boundary s = (case s of [] \<Rightarrow> True | c # _ \<Rightarrow> \<not> isword c)"

fun find_close :: "string \<Rightarrow> nat option" where
  \<comment> \<open>\<^verbatim>\<open>.*?</steps>\<close> with DOTALL, matched at the head of the text: the number of characters up
      to the end of the first closing tag\<close>
  "find_close [] = None"
| "find_close (c # cs) =
     (if ci_starts ''</steps>'' (c # cs) then Some 8
      else map_option Suc (find_close cs))"

fun search_steps :: "string \<Rightarrow> string option" where
  \<comment> \<open>\<^verbatim>\<open>re.search(r"(<steps\b.*?</steps>)", s, flags=re.DOTALL | re.IGNORECASE)\<close> and its
      \<^verbatim>\<open>group(1)\<close>\<close>
  "search_steps [] = None"
| "search_steps (c # cs) =
     (if ci_starts ''<steps'' (c # cs) \<and> word_boundary (drop 5 cs) then
        (case find_close (drop 5 cs) of
           Some n \<Rightarrow> Some (take (6 + n) (c # cs))
         | None \<Rightarrow> search_steps cs)
      else search_steps cs)"

subsection \<open>The element tree\<close>

text \<open>
  What \<^verbatim>\<open>xml.etree.ElementTree\<close> builds, without the attributes, which the parser does not
  read: \<open>etext\<close> and \<open>etail\<close> are \<^verbatim>\<open>None\<close> or a text.
\<close>

datatype element =
  Element (etag: string) (etext: "string option") (echildren: "element list")
    (etail: "string option")

definition text_list :: "string option \<Rightarrow> string list" where
  \<comment> \<open>\<^verbatim>\<open>if t: yield t\<close>\<close>
  "text_list t = (case t of None \<Rightarrow> [] | Some s \<Rightarrow> if s \<noteq> [] then [s] else [])"

fun itertext :: "element \<Rightarrow> string list" where
  "itertext (Element tg tx ch ta) =
     text_list tx @ concat (map (\<lambda>e. itertext e @ text_list (etail e)) ch)"

fun descendants :: "element \<Rightarrow> element list" where
  \<comment> \<open>\<^verbatim>\<open>elem.iter()\<close> without \<open>elem\<close> itself, in document order\<close>
  "descendants (Element tg tx ch ta) = concat (map (\<lambda>e. e # descendants e) ch)"

definition findall_descendants :: "string \<Rightarrow> element \<Rightarrow> element list" where
  \<comment> \<open>\<^verbatim>\<open>elem.findall(".//" + name)\<close>\<close>
  "findall_descendants name elem = filter (\<lambda>e. etag e = name) (descendants elem)"

definition findall_children :: "string \<Rightarrow> element \<Rightarrow> element list" where
  \<comment> \<open>\<^verbatim>\<open>elem.findall("./" + name)\<close>\<close>
  "findall_children name elem = filter (\<lambda>e. etag e = name) (echildren elem)"

definition text_of :: "element option \<Rightarrow> string" where
  "text_of elem = (case elem of None \<Rightarrow> [] | Some e \<Rightarrow> concat (itertext e))"

subsection \<open>The parser\<close>

definition try_parse :: "(string \<Rightarrow> exn + element) \<Rightarrow> string \<Rightarrow> element option" where
  \<comment> \<open>\<open>fromstring\<close> is \<^verbatim>\<open>ET.fromstring\<close>, \<open>Inl\<close> when it raises\<close>
  "try_parse fromstring xml_text =
     (case fromstring xml_text of Inl _ \<Rightarrow> None | Inr rt \<Rightarrow> Some rt)"

definition step_records :: "(string \<Rightarrow> exn + string) \<Rightarrow> element \<Rightarrow> exn + step_record list" where
  \<comment> \<open>the body of the loop over the step elements: what it appends to \<open>out\<close>\<close>
  "step_records replace_charref step =
     (let ps = findall_children ''parameterizedString'' step;
          action_raw = (if length ps > 0 then text_of (Some (ps ! 0)) else []);
          expected_raw = (if length ps > 1 then text_of (Some (ps ! 1)) else [])
      in case clean replace_charref action_raw of
           Inl e \<Rightarrow> Inl e
         | Inr action' \<Rightarrow>
             (case clean replace_charref expected_raw of
                Inl e \<Rightarrow> Inl e
              | Inr expected' \<Rightarrow>
                  Inr (if action' \<noteq> [] \<or> expected' \<noteq> []
                       then [\<lparr>action = action', expected = expected'\<rparr>] else [])))"

fun records_loop :: "(string \<Rightarrow> exn + string) \<Rightarrow> element list \<Rightarrow> exn + step_record list" where
  \<comment> \<open>the loop \<^verbatim>\<open>for step in ...\<close>, which the first exception ends\<close>
  "records_loop replace_charref [] = Inr []"
| "records_loop replace_charref (step # rest) =
     (case step_records replace_charref step of
        Inl e \<Rightarrow> Inl e
      | Inr out \<Rightarrow>
          (case records_loop replace_charref rest of
             Inl e \<Rightarrow> Inl e
           | Inr later \<Rightarrow> Inr (out @ later)))"

definition records_of :: "(string \<Rightarrow> exn + string) \<Rightarrow> element \<Rightarrow> exn + step_record list" where
  \<comment> \<open>the loop over \<^verbatim>\<open>root.findall(".//step")\<close>\<close>
  "records_of replace_charref rt =
     records_loop replace_charref (findall_descendants ''step'' rt)"

definition strategy_b :: "(string \<Rightarrow> exn + string) \<Rightarrow> string \<Rightarrow> exn + string" where
  \<comment> \<open>the text that strategy B hands to the XML parser\<close>
  "strategy_b replace_charref raw =
     (case unescape replace_charref raw of
        Inl e \<Rightarrow> Inl e
      | Inr unescaped \<Rightarrow>
          (let xml_blob = (case search_steps unescaped of Some m \<Rightarrow> m | None \<Rightarrow> unescaped)
           in Inr (sanitize_for_xml xml_blob)))"

definition parse_root ::
  "(string \<Rightarrow> exn + element) \<Rightarrow> (string \<Rightarrow> exn + string) \<Rightarrow> string
     \<Rightarrow> exn + element option" where
  \<comment> \<open>strategies A and B: the value of \<open>root\<close> when the loop is reached\<close>
  "parse_root fromstring replace_charref raw =
     (let rt = try_parse fromstring raw
      in if rt = None \<or> contains ''&lt;steps'' (map lower raw)
         then (case strategy_b replace_charref raw of
                 Inl e \<Rightarrow> Inl e
               | Inr xml_blob \<Rightarrow> Inr (try_parse fromstring xml_blob))
         else Inr rt)"

definition parse_steps_from_tcm_field ::
  "(string \<Rightarrow> exn + element) \<Rightarrow> (string \<Rightarrow> exn + string) \<Rightarrow> string option
     \<Rightarrow> error + step_record list" where
  \<comment> \<open>the argument is \<^verbatim>\<open>None\<close> or a text; the result is \<open>Inl\<close> when an exception leaves the
      function\<close>
  "parse_steps_from_tcm_field fromstring replace_charref steps_field_value =
     (case steps_field_value of
        None \<Rightarrow> Inr []
      | Some s \<Rightarrow>
          if s = [] then Inr []
          else (case parse_root fromstring replace_charref (strip s) of
                  Inl e \<Rightarrow> Inl (Raised e)
                | Inr None \<Rightarrow> Inr []
                | Inr (Some rt) \<Rightarrow> raised (records_of replace_charref rt)))"

section \<open>The prompt text: \<^verbatim>\<open>compile_nl_tc_from_azure\<close>\<close>

fun compile_loop :: "step_record list \<Rightarrow> step_record list \<times> string list" where
  \<comment> \<open>the loop over \<open>steps\<close>: \<open>azure_steps_structured\<close> and \<open>lines\<close>\<close>
  "compile_loop [] = ([], [])"
| "compile_loop (s # rest) =
     (let a = strip (action s); e = strip (expected s);
          (structured, lines) = compile_loop rest
      in if a = [] \<and> e = [] then (structured, lines)
         else (\<lparr>action = a, expected = e\<rparr> # structured,
               if a \<noteq> [] then a # lines else lines))"

definition compile_steps :: "step_record list \<Rightarrow> string \<times> step_record list" where
  \<comment> \<open>\<open>tc_nl\<close> and \<open>azure_steps_structured\<close>, from the parser's \<open>steps\<close>\<close>
  "compile_steps steps =
     (let (structured, lines) = compile_loop steps;
          tc_nl = strip (concat (filter (\<lambda>ln. ln \<noteq> []) lines))
      in (tc_nl, structured))"

section \<open>The properties of the specification, as predicates\<close>

definition action_step_ok :: "json \<Rightarrow> bool" where
  \<comment> \<open>an ActionStep with a non-null keyword, a list-typed params and some id\<close>
  "action_step_ok st =
     (case st of
        JDict d \<Rightarrow>
          (case dict_get d ''keyword'' of None \<Rightarrow> False | Some v \<Rightarrow> v \<noteq> JNull)
          \<and> (case dict_get d ''params'' of None \<Rightarrow> False | Some v \<Rightarrow> is_list v)
          \<and> (case dict_get d ''id'' of None \<Rightarrow> False | Some v \<Rightarrow> truthy v)
      | _ \<Rightarrow> False)"

definition structured_output_ok :: "dict \<Rightarrow> bool" where
  \<comment> \<open>every required top-level key, a non-empty list of steps, every step an ActionStep\<close>
  "structured_output_ok payload =
     (list_all (\<lambda>k. dict_get payload k \<noteq> None) REQUIRED_TOP_LEVEL_KEYS
      \<and> (case dict_get payload ''automated_steps'' of
            Some (JList steps) \<Rightarrow> steps \<noteq> [] \<and> list_all action_step_ok steps
          | _ \<Rightarrow> False))"

definition references_of :: "dict \<Rightarrow> dict" where
  \<comment> \<open>the mapping under \<^verbatim>\<open>references\<close>, empty when there is none\<close>
  "references_of payload =
     (case dict_get payload ''references'' of Some (JDict r) \<Rightarrow> r | _ \<Rightarrow> [])"

definition opens_steps :: "string \<Rightarrow> bool" where
  \<comment> \<open>the text begins with an opening marker: \<^verbatim>\<open><steps\<close> in any letter case, then a word
      boundary\<close>
  "opens_steps s = (ci_starts ''<steps'' s \<and> word_boundary (drop 6 s))"

definition closes_steps :: "string \<Rightarrow> bool" where
  \<comment> \<open>the text begins with a closing marker: \<^verbatim>\<open></steps>\<close> in any letter case\<close>
  "closes_steps s = ci_starts ''</steps>'' s"

fun join_lines :: "string list \<Rightarrow> string" where
  \<comment> \<open>one entry per line: \<^verbatim>\<open>"\n".join(lines)\<close>\<close>
  "join_lines [] = []"
| "join_lines [l] = l"
| "join_lines (l # ls) = l @ CHR 0x0A # join_lines ls"

fun tag_free :: "string \<Rightarrow> bool" where
  \<comment> \<open>no opening angle bracket of the text begins a match of \<^verbatim>\<open><[^>]+>\<close>\<close>
  "tag_free [] = True"
| "tag_free (c # cs) =
     ((c = CHR ''<'' \<longrightarrow>
         \<not> (let n = length (takeWhile (\<lambda>d. d \<noteq> CHR ''>'') cs) in 0 < n \<and> n < length cs))
      \<and> tag_free cs)"

fun collapsed :: "string \<Rightarrow> bool" where
  \<comment> \<open>the only white space of the text is single blanks\<close>
  "collapsed [] = True"
| "collapsed (c # cs) =
     ((isspace c \<longrightarrow> c = CHR '' '' \<and> (cs = [] \<or> \<not> isspace (hd cs))) \<and> collapsed cs)"

section \<open>Values of the libraries at the texts of the examples\<close>

text \<open>
  \<^verbatim>\<open>_replace_charref\<close> on the references of the examples: the five names of XML, a name that
  the table does not know, which the library returns behind its ampersand, and a decimal
  reference of more than 4300 digits, the default limit of \<^verbatim>\<open>int\<close> on the length of a decimal
  text, which makes the \<^verbatim>\<open>int\<close> call of the library raise \<^verbatim>\<open>ValueError\<close>.
\<close>

definition replace_charref_xml :: "string \<Rightarrow> exn + string" where
  "replace_charref_xml s =
     (if take 1 s = ''#'' \<and> 4300 < length (takeWhile isdec (drop 1 s)) then Inl ValueError
      else (case map_of [(''amp;'', ''&''), (''lt;'', ''<''), (''gt;'', ''>''),
                         (''quot;'', [CHR 0x22]), (''apos;'', [CHR 0x27])] s of
              Some r \<Rightarrow> Inr r
            | None \<Rightarrow> Inr (CHR ''&'' # s)))"

definition long_reference :: string where
  \<comment> \<open>a decimal character reference of 4301 digits\<close>
  "long_reference = ''&#'' @ replicate 4301 CHR ''1'' @ '';''"

definition doc_open_app :: string where
  "doc_open_app =
     ''<steps><step><parameterizedString>Open App</parameterizedString>''
     @ ''<parameterizedString></parameterizedString></step></steps>''"

definition doc_escaped_tag :: string where
  "doc_escaped_tag =
     ''<steps><step><parameterizedString>a&lt;steps</parameterizedString></step></steps>''"

text \<open>
  \<^verbatim>\<open>ET.fromstring\<close> on the two documents above, which are well-formed; every other text of
  the examples is not, and the library raises \<^verbatim>\<open>ParseError\<close> on it.
\<close>

definition fromstring_docs :: "string \<Rightarrow> exn + element" where
  "fromstring_docs s =
     (if s = doc_open_app then
        Inr (Element ''steps'' None
               [Element ''step'' None
                  [Element ''parameterizedString'' (Some ''Open App'') [] None,
                   Element ''parameterizedString'' None [] None] None] None)
      else if s = doc_escaped_tag then
        Inr (Element ''steps'' None
               [Element ''step'' None
                  [Element ''parameterizedString'' (Some ''a<steps'') [] None] None] None)
      else Inl ParseError)"

text \<open>
  \<^verbatim>\<open>json.loads\<close> on three JSON texts; every other text of the examples is not JSON, and the
  library raises \<^verbatim>\<open>JSONDecodeError\<close> on it.
\<close>

definition json_a1 :: string where
  "json_a1 = [CHR ''{'', CHR 0x22, CHR ''a'', CHR 0x22] @ '': 1}''"

definition fenced_a1 :: string where
  \<comment> \<open>the object in a fenced block, after a sentence\<close>
  "fenced_a1 =
     ''Here is the result:'' @ [CHR 0x0A] @ ''```json'' @ [CHR 0x0A] @ json_a1
     @ [CHR 0x0A] @ ''```''"

definition loads_docs :: "string \<Rightarrow> exn + json" where
  "loads_docs s =
     (if s = json_a1 then Inr (JDict [(''a'', JInt 1)])
      else if s = ''['' @ json_a1 @ '']'' then Inr (JList [JDict [(''a'', JInt 1)]])
      else if s = ''[1, 2]'' then Inr (JList [JInt 1, JInt 2])
      else Inl JSONDecodeError)"

section \<open>Objects of the examples\<close>

definition payload_tap :: dict where
  \<comment> \<open>an object with every required key, one step without an id and a scalar for params\<close>
  "payload_tap =
     [(''name'', JStr ''Login''), (''description'', JStr []), (''preconditions'', JList []),
      (''tags'', JList []),
      (''automated_steps'',
         JList [JDict [(''keyword'', JStr ''tap''), (''params'', JStr ''btn'')]]),
      (''artifacts'', JDict []),
      (''references'', JDict [(''source'', JStr ''tracker''), (''steps'', JNull)]),
      (''diagnostics'', JDict [])]"

definition payload_plain :: dict where
  \<comment> \<open>an object without \<^verbatim>\<open>references\<close>, its one step without id and params\<close>
  "payload_plain =
     [(''name'', JStr ''Login''), (''description'', JStr []), (''preconditions'', JList []),
      (''tags'', JList []),
      (''automated_steps'',
         JList [JDict [(''keyword'', JStr ''tap'')]]),
      (''artifacts'', JDict []),
      (''diagnostics'', JDict [])]"

definition payload_mixed :: dict where
  \<comment> \<open>a list of steps whose first entry is not a mapping\<close>
  "payload_mixed =
     [(''automated_steps'', JList [JStr ''tap'', JDict [(''keyword'', JStr ''tap'')]])]"

definition steps_login :: "step_record list" where
  "steps_login =
     [\<lparr>action = ''Open App'', expected = []\<rparr>,
      \<lparr>action = ''Tap Login'', expected = ''Home is shown''\<rparr>]"

section \<open>Dictionaries\<close>

lemma dict_get_set: "dict_get (dict_set d k v) k' = (if k' = k then Some v else dict_get d k')"
  by (induction d) (auto simp: dict_get_def)

lemma dict_set_set: "dict_set (dict_set d k v) k w = dict_set d k w"
  by (induction d) auto

lemma dict_get_pop: "dict_get (dict_pop d k) k' = (if k' = k then None else dict_get d k')"
  by (induction d) (auto simp: dict_get_def dict_pop_def)

lemma dict_set_others:
  "filter (\<lambda>kv. fst kv \<noteq> k) (dict_set d k v) = filter (\<lambda>kv. fst kv \<noteq> k) d"
  by (induction d) auto

section \<open>Repair\<close>

lemma fill_id_ok: "\<exists>v. dict_get (fill_id i st) ''id'' = Some v \<and> truthy v"
  by (auto simp: fill_id_def dict_get_set step_id_def split: option.splits)

lemma fill_keyword_ok: "\<exists>v. dict_get (fill_keyword st) ''keyword'' = Some v \<and> v \<noteq> JNull"
  by (cases "dict_get st ''keyword''") (auto simp: fill_keyword_def dict_get_set)

lemma fill_params_ok: "\<exists>v. dict_get (fill_params st) ''params'' = Some v \<and> is_list v"
  by (cases "dict_get st ''params''") (auto simp: fill_params_def dict_get_set)

lemma fill_keyword_other: "k \<noteq> ''keyword'' \<Longrightarrow> dict_get (fill_keyword st) k = dict_get st k"
  by (simp add: fill_keyword_def dict_get_set)

lemma fill_params_other: "k \<noteq> ''params'' \<Longrightarrow> dict_get (fill_params st) k = dict_get st k"
  by (auto simp: fill_params_def dict_get_set split: option.splits)

lemma repair_step_ok: "action_step_ok (JDict (repair_step i st))"
proof -
  obtain a where a: "dict_get (fill_id i st) ''id'' = Some a" "truthy a"
    using fill_id_ok by blast
  obtain b where b: "dict_get (fill_keyword (fill_id i st)) ''keyword'' = Some b" "b \<noteq> JNull"
    using fill_keyword_ok by blast
  obtain c where c: "dict_get (repair_step i st) ''params'' = Some c" "is_list c"
    unfolding repair_step_def using fill_params_ok by blast
  have "dict_get (repair_step i st) ''id'' = Some a"
    unfolding repair_step_def using a by (simp add: fill_params_other fill_keyword_other)
  moreover have "dict_get (repair_step i st) ''keyword'' = Some b"
    unfolding repair_step_def using b by (simp add: fill_params_other)
  ultimately show ?thesis
    using a b c by (simp add: action_step_ok_def)
qed

text \<open>A step that already has the three fields is left as it is, at any position.\<close>

lemma repair_step_fixed:
  assumes "action_step_ok (JDict st)"
  shows "repair_step j st = st"
proof -
  from assms obtain a b c where
    "dict_get st ''id'' = Some a" "truthy a"
    "dict_get st ''keyword'' = Some b" "b \<noteq> JNull"
    "dict_get st ''params'' = Some c" "is_list c"
    by (auto simp: action_step_ok_def split: option.splits)
  then show ?thesis
    by (cases c) (simp_all add: repair_step_def fill_id_def fill_keyword_def fill_params_def)
qed

lemma repair_steps_dicts_ok:
  "JDict d \<in> set (repair_steps i steps) \<Longrightarrow> action_step_ok (JDict d)"
  by (induction i steps rule: repair_steps.induct) (auto simp: repair_step_ok)

lemma repair_steps_idem: "repair_steps i (repair_steps i steps) = repair_steps i steps"
  by (induction i steps rule: repair_steps.induct)
     (simp_all add: repair_step_fixed repair_step_ok)

text \<open>
  C6. Repairing twice is repairing once: for every object, a second
  \<^verbatim>\<open>ensure_step_defaults\<close> on the repaired object changes nothing, the ids, keywords and
  params of the first pass being kept.
\<close>

theorem repair_idempotent:
  "ensure_step_defaults (ensure_step_defaults payload) = ensure_step_defaults payload"
proof (cases "\<exists>steps. dict_get payload ''automated_steps'' = Some (JList steps)")
  case True
  then obtain steps where "dict_get payload ''automated_steps'' = Some (JList steps)"
    by blast
  then show ?thesis
    by (simp add: ensure_step_defaults_def dict_get_set dict_set_set repair_steps_idem)
next
  case False
  then have "ensure_step_defaults payload = payload"
    by (auto simp: ensure_step_defaults_def split: option.splits json.splits)
  then show ?thesis by simp
qed

section \<open>Repair and validation\<close>

lemma validate_steps_dicts:
  "validate_steps i steps = Inr () \<Longrightarrow> st \<in> set steps \<Longrightarrow> \<exists>d. st = JDict d"
  by (induction i steps rule: validate_steps.induct)
     (auto simp: validate_step_def split: sum.splits json.splits)

lemma validate_payload_keys:
  "validate_payload p = Inr () \<Longrightarrow>
     list_all (\<lambda>k. dict_get p k \<noteq> None) REQUIRED_TOP_LEVEL_KEYS"
  by (auto simp: validate_payload_def Let_def list_all_iff filter_empty_conv split: if_splits)

lemma validate_payload_steps:
  "validate_payload p = Inr () \<Longrightarrow>
     \<exists>steps. dict_get p ''automated_steps'' = Some (JList steps) \<and> steps \<noteq> []
        \<and> validate_steps 0 steps = Inr ()"
  by (auto simp: validate_payload_def Let_def split: if_splits option.splits json.splits)

lemma ensure_steps:
  "dict_get (ensure_step_defaults p) ''automated_steps'' = Some (JList steps') \<Longrightarrow>
     \<exists>steps. dict_get p ''automated_steps'' = Some (JList steps)
        \<and> steps' = repair_steps 1 steps"
  by (auto simp: ensure_step_defaults_def dict_get_set split: option.splits json.splits)

lemma dict_set_keys: "dict_get d k \<noteq> None \<Longrightarrow> map fst (dict_set d k v) = map fst d"
  by (induction d) (auto simp: dict_get_def)

lemma ensure_keys: "map fst (ensure_step_defaults payload) = map fst payload"
  by (auto simp: ensure_step_defaults_def dict_set_keys split: option.splits json.splits)

lemma ensure_other:
  "k \<noteq> ''automated_steps'' \<Longrightarrow> dict_get (ensure_step_defaults payload) k = dict_get payload k"
  by (auto simp: ensure_step_defaults_def dict_get_set split: option.splits json.splits)

lemma repair_steps_length: "length (repair_steps i steps) = length steps"
  by (induction i steps rule: repair_steps.induct) simp_all

lemma repair_steps_nth:
  "j < length steps \<Longrightarrow>
     repair_steps i steps ! j
       = (case steps ! j of JDict d \<Rightarrow> JDict (repair_step (i + j) d) | x \<Rightarrow> x)"
proof (induction steps arbitrary: i j)
  case Nil
  then show ?case by simp
next
  case (Cons st rest)
  show ?case
  proof (cases j)
    case 0
    then show ?thesis by (cases st) simp_all
  next
    case (Suc m)
    with Cons.prems have "m < length rest" by simp
    from Cons.IH [OF this, of "Suc i"] Suc show ?thesis
      by (cases st) (auto split: json.splits)
  qed
qed

lemma merge_other:
  "k \<noteq> ''references'' \<Longrightarrow> dict_get (merge_references payload azure_steps) k = dict_get payload k"
  by (simp add: merge_references_def Let_def dict_get_set)

lemma pop_meta_get:
  "k \<notin> {''required_top_level_keys'', ''required_keys'', ''azure_steps''} \<Longrightarrow>
     dict_get (pop_meta payload) k = dict_get payload k"
  by (simp add: pop_meta_def dict_get_pop)

lemma validated_repaired_ok:
  assumes v: "validate_payload q = Inr ()"
    and s: "dict_get q ''automated_steps'' = dict_get (ensure_step_defaults p) ''automated_steps''"
  shows "structured_output_ok q"
proof -
  from validate_payload_steps [OF v] obtain steps' where
    s': "dict_get q ''automated_steps'' = Some (JList steps')"
    "steps' \<noteq> []" "validate_steps 0 steps' = Inr ()"
    by blast
  from s s'(1) have "dict_get (ensure_step_defaults p) ''automated_steps'' = Some (JList steps')"
    by simp
  from ensure_steps [OF this] obtain steps0 where
    s0: "steps' = repair_steps 1 steps0" by blast
  have "action_step_ok st" if "st \<in> set steps'" for st
  proof -
    from validate_steps_dicts [OF s'(3) that] obtain d where "st = JDict d" by blast
    with that s0 show ?thesis using repair_steps_dicts_ok by blast
  qed
  then have "list_all action_step_ok steps'" by (simp add: list_all_iff)
  with s' validate_payload_keys [OF v] show ?thesis
    by (simp add: structured_output_ok_def)
qed

lemma finish_conversion_steps:
  "dict_get (pop_meta (merge_references (ensure_step_defaults payload) azure_steps))
       ''automated_steps''
     = dict_get (ensure_step_defaults payload) ''automated_steps''"
  by (simp add: pop_meta_get merge_other)

text \<open>
  C3, as stated, fails: the repair adds no top-level key and no step. On the object whose
  only key is an empty \<^verbatim>\<open>automated_steps\<close> it changes nothing, and the result has neither the
  required keys nor a step.
\<close>

theorem repair_alone_counterexample:
  "ensure_step_defaults [(''automated_steps'', JList [])] = [(''automated_steps'', JList [])]
   \<and> \<not> structured_output_ok (ensure_step_defaults [(''automated_steps'', JList [])])"
  by (simp add: ensure_step_defaults_def structured_output_ok_def dict_get_def)

text \<open>
  C3, amended. The repair changes the value under \<^verbatim>\<open>automated_steps\<close> and nothing else: it
  adds and removes no top-level key, and it is a no-op when \<^verbatim>\<open>automated_steps\<close> is absent or
  not a list. When it is a list, the repaired list has as many entries as before, every
  entry that is not a mapping is untouched, and every entry that is a mapping has a non-null
  keyword, a list-typed params and an id. An object that \<^verbatim>\<open>validate_payload\<close> accepts after
  the repair, and the object that \<^verbatim>\<open>run_conversion\<close> returns after the repair, the merge, the
  pops and the validation, has every required top-level key and a non-empty
  \<^verbatim>\<open>automated_steps\<close>, all of whose entries are such mappings.
\<close>

theorem repair_then_validate:
  "map fst (ensure_step_defaults payload) = map fst payload
   \<and> (k \<noteq> ''automated_steps'' \<longrightarrow>
        dict_get (ensure_step_defaults payload) k = dict_get payload k)
   \<and> ((\<forall>xs. dict_get payload ''automated_steps'' \<noteq> Some (JList xs))
        \<longrightarrow> ensure_step_defaults payload = payload)
   \<and> (dict_get payload ''automated_steps'' = Some (JList steps) \<longrightarrow>
        dict_get (ensure_step_defaults payload) ''automated_steps''
          = Some (JList (repair_steps 1 steps))
        \<and> length (repair_steps 1 steps) = length steps
        \<and> (\<forall>i < length steps. (\<forall>d. steps ! i \<noteq> JDict d)
              \<longrightarrow> repair_steps 1 steps ! i = steps ! i)
        \<and> (\<forall>i < length steps. \<forall>d. steps ! i = JDict d
              \<longrightarrow> repair_steps 1 steps ! i = JDict (repair_step (Suc i) d)
                  \<and> action_step_ok (repair_steps 1 steps ! i)))
   \<and> (validate_payload (ensure_step_defaults payload) = Inr ()
        \<longrightarrow> structured_output_ok (ensure_step_defaults payload))
   \<and> (finish_conversion payload azure_steps = Inr result \<longrightarrow> structured_output_ok result)"
proof (intro conjI impI allI)
  show "map fst (ensure_step_defaults payload) = map fst payload"
    by (rule ensure_keys)
next
  assume "k \<noteq> ''automated_steps''"
  then show "dict_get (ensure_step_defaults payload) k = dict_get payload k"
    by (rule ensure_other)
next
  assume "\<forall>xs. dict_get payload ''automated_steps'' \<noteq> Some (JList xs)"
  then show "ensure_step_defaults payload = payload"
    by (auto simp: ensure_step_defaults_def split: option.splits json.splits)
next
  assume "dict_get payload ''automated_steps'' = Some (JList steps)"
  then show "dict_get (ensure_step_defaults payload) ''automated_steps''
            = Some (JList (repair_steps 1 steps))"
    by (simp add: ensure_step_defaults_def dict_get_set)
next
  show "length (repair_steps 1 steps) = length steps"
    by (rule repair_steps_length)
next
  fix i
  assume "i < length steps" and "\<forall>d. steps ! i \<noteq> JDict d"
  then show "repair_steps 1 steps ! i = steps ! i"
    by (simp add: repair_steps_nth split: json.splits)
next
  fix i d
  assume "i < length steps" and "steps ! i = JDict d"
  then show "repair_steps 1 steps ! i = JDict (repair_step (Suc i) d)"
    by (simp add: repair_steps_nth)
next
  fix i d
  assume "i < length steps" and "steps ! i = JDict d"
  then show "action_step_ok (repair_steps 1 steps ! i)"
    by (simp add: repair_steps_nth repair_step_ok)
next
  assume "validate_payload (ensure_step_defaults payload) = Inr ()"
  then show "structured_output_ok (ensure_step_defaults payload)"
    by (rule validated_repaired_ok) simp
next
  assume f: "finish_conversion payload azure_steps = Inr result"
  then have r: "result = pop_meta (merge_references (ensure_step_defaults payload) azure_steps)"
    and v: "validate_payload result = Inr ()"
    by (auto simp: finish_conversion_def Let_def split: sum.splits)
  from v show "structured_output_ok result"
    by (rule validated_repaired_ok) (simp only: r finish_conversion_steps)
qed

theorem repair_then_validate_witness:
  "map fst (ensure_step_defaults payload_tap) = map fst payload_tap
   \<and> dict_get (ensure_step_defaults payload_tap) ''name'' = Some (JStr ''Login'')
   \<and> ensure_step_defaults [(''automated_steps'', JStr ''tap'')]
       = [(''automated_steps'', JStr ''tap'')]
   \<and> dict_get (ensure_step_defaults payload_mixed) ''automated_steps''
       = Some (JList [JStr ''tap'',
                      JDict [(''keyword'', JStr ''tap''), (''id'', JStr ''S002''),
                             (''params'', JList [])]])
   \<and> action_step_ok (JDict [(''keyword'', JStr ''tap''), (''id'', JStr ''S002''),
                             (''params'', JList [])])
   \<and> validate_payload (ensure_step_defaults payload_tap) = Inr ()
   \<and> structured_output_ok (ensure_step_defaults payload_tap)
   \<and> (\<exists>result. finish_conversion payload_plain steps_login = Inr result
         \<and> structured_output_ok result)"
proof -
  let ?mixed = "[JStr ''tap'', JDict [(''keyword'', JStr ''tap'')]]"
  let ?result = "pop_meta (merge_references (ensure_step_defaults payload_plain) steps_login)"
  have k: "''name'' \<noteq> ''automated_steps''" by simp
  have n: "dict_get payload_tap ''name'' = Some (JStr ''Login'')"
    by (simp add: payload_tap_def dict_get_def)
  have a: "\<forall>xs. dict_get [(''automated_steps'', JStr ''tap'')] ''automated_steps''
             \<noteq> Some (JList xs)"
    by (simp add: dict_get_def)
  have s: "dict_get payload_mixed ''automated_steps'' = Some (JList ?mixed)"
    by (simp add: payload_mixed_def dict_get_def)
  have r: "repair_steps 1 ?mixed
      = [JStr ''tap'',
         JDict [(''keyword'', JStr ''tap''), (''id'', JStr ''S002''), (''params'', JList [])]]"
    by code_simp
  have v: "validate_payload (ensure_step_defaults payload_tap) = Inr ()"
    by code_simp
  have f: "finish_conversion payload_plain steps_login = Inr ?result"
    by code_simp
  have one: "(1::nat) < length ?mixed" "?mixed ! 1 = JDict [(''keyword'', JStr ''tap'')]"
    by simp_all
  from s repair_then_validate [of payload_mixed _ ?mixed]
  have m: "dict_get (ensure_step_defaults payload_mixed) ''automated_steps''
          = Some (JList (repair_steps 1 ?mixed))"
    "\<forall>i < length ?mixed. \<forall>d. ?mixed ! i = JDict d
        \<longrightarrow> action_step_ok (repair_steps 1 ?mixed ! i)"
    by blast+
  from m(2) one have ok: "action_step_ok (repair_steps 1 ?mixed ! 1)" by blast
  have ok': "action_step_ok (JDict [(''keyword'', JStr ''tap''), (''id'', JStr ''S002''),
                             (''params'', JList [])])"
    using ok unfolding r by simp
  from k n v repair_then_validate [of payload_tap "''name''"]
  have t: "map fst (ensure_step_defaults payload_tap) = map fst payload_tap"
    "dict_get (ensure_step_defaults payload_tap) ''name'' = Some (JStr ''Login'')"
    "structured_output_ok (ensure_step_defaults payload_tap)"
    by simp_all
  from a repair_then_validate [of "[(''automated_steps'', JStr ''tap'')]"]
  have e: "ensure_step_defaults [(''automated_steps'', JStr ''tap'')]
       = [(''automated_steps'', JStr ''tap'')]"
    by blast
  from f repair_then_validate [of payload_plain _ _ steps_login ?result]
  have g: "structured_output_ok ?result" by blast
  from t e m(1) ok' v f g show ?thesis unfolding r by blast
qed

section \<open>The merge into \<^verbatim>\<open>references\<close>\<close>

lemma references_of_merge:
  "references_of (merge_references payload azure_steps)
     = dict_set (references_of payload) ''steps'' (JList (map step_json azure_steps))"
  by (simp add: merge_references_def references_of_def Let_def dict_get_set)

lemma references_of_ensure:
  "references_of (ensure_step_defaults payload) = references_of payload"
  by (auto simp: ensure_step_defaults_def references_of_def dict_get_set
      split: option.splits json.splits)

lemma references_of_pop_meta: "references_of (pop_meta payload) = references_of payload"
  by (simp add: pop_meta_def references_of_def dict_get_pop)

text \<open>
  C4. The merge writes the \<^verbatim>\<open>steps\<close> key of \<^verbatim>\<open>references\<close> and nothing else in it: every
  other key of the mapping keeps its value and its place, for every object and every
  sequence of steps, and so it is in the object that \<^verbatim>\<open>run_conversion\<close> returns.
\<close>

theorem merge_keeps_siblings:
  "(k \<noteq> ''steps'' \<longrightarrow>
      dict_get (references_of (merge_references payload azure_steps)) k
        = dict_get (references_of payload) k)
   \<and> filter (\<lambda>kv. fst kv \<noteq> ''steps'') (references_of (merge_references payload azure_steps))
        = filter (\<lambda>kv. fst kv \<noteq> ''steps'') (references_of payload)
   \<and> dict_get (references_of (merge_references payload azure_steps)) ''steps''
        = Some (JList (map step_json azure_steps))
   \<and> (finish_conversion payload azure_steps = Inr result \<and> k \<noteq> ''steps'' \<longrightarrow>
        dict_get (references_of result) k = dict_get (references_of payload) k)"
proof (intro conjI impI)
  assume "k \<noteq> ''steps''"
  then show "dict_get (references_of (merge_references payload azure_steps)) k
        = dict_get (references_of payload) k"
    by (simp add: references_of_merge dict_get_set)
next
  show "filter (\<lambda>kv. fst kv \<noteq> ''steps'') (references_of (merge_references payload azure_steps))
        = filter (\<lambda>kv. fst kv \<noteq> ''steps'') (references_of payload)"
    by (simp add: references_of_merge dict_set_others)
next
  show "dict_get (references_of (merge_references payload azure_steps)) ''steps''
        = Some (JList (map step_json azure_steps))"
    by (simp add: references_of_merge dict_get_set)
next
  assume a: "finish_conversion payload azure_steps = Inr result \<and> k \<noteq> ''steps''"
  then have "result = pop_meta (merge_references (ensure_step_defaults payload) azure_steps)"
    by (auto simp: finish_conversion_def Let_def split: sum.splits)
  with a show "dict_get (references_of result) k = dict_get (references_of payload) k"
    by (simp add: references_of_pop_meta references_of_merge references_of_ensure dict_get_set)
qed

theorem merge_keeps_siblings_witness:
  "''source'' \<noteq> ''steps''
   \<and> dict_get (references_of payload_tap) ''source'' = Some (JStr ''tracker'')
   \<and> dict_get (references_of (merge_references payload_tap steps_login)) ''source''
       = Some (JStr ''tracker'')
   \<and> (\<exists>result. finish_conversion payload_tap steps_login = Inr result
         \<and> dict_get (references_of result) ''source'' = Some (JStr ''tracker''))"
proof -
  have f: "finish_conversion payload_tap steps_login
      = Inr (pop_meta (merge_references (ensure_step_defaults payload_tap) steps_login))"
    by code_simp
  have s: "dict_get (references_of payload_tap) ''source'' = Some (JStr ''tracker'')"
    by (simp add: payload_tap_def references_of_def dict_get_def)
  show ?thesis
    using f s merge_keeps_siblings [of "''source''" payload_tap steps_login
        "pop_meta (merge_references (ensure_step_defaults payload_tap) steps_login)"]
    by simp
qed

section \<open>The prompt text\<close>

text \<open>
  C7. The source announces one action per line, and joins the actions with the empty
  text: two steps with the actions \<^verbatim>\<open>Open App\<close> and \<^verbatim>\<open>Tap Login\<close> give the prompt
  \<^verbatim>\<open>Open AppTap Login\<close>, with no line break between them.
\<close>

theorem prompt_joined_without_newlines:
  "fst (compile_steps steps_login) = ''Open AppTap Login''
   \<and> join_lines [''Open App'', ''Tap Login''] = ''Open App'' @ [CHR 0x0A] @ ''Tap Login''
   \<and> fst (compile_steps steps_login) \<noteq> join_lines [''Open App'', ''Tap Login'']"
  by code_simp

section \<open>Extraction\<close>

lemma upto_last_close_None: "upto_last_close s = None \<longleftrightarrow> CHR ''}'' \<notin> set s"
proof -
  have "dropWhile (\<lambda>c. c \<noteq> CHR ''}'') (rev s) = [] \<longleftrightarrow> CHR ''}'' \<notin> set s"
    by (auto simp: dropWhile_eq_Nil_conv)
  then show ?thesis by (simp add: upto_last_close_def Let_def)
qed

lemma upto_last_close_Some:
  assumes "upto_last_close s = Some r"
  shows "\<exists>mid post. r = mid @ [CHR ''}''] \<and> s = r @ post \<and> CHR ''}'' \<notin> set post"
proof -
  let ?P = "\<lambda>c. c \<noteq> CHR ''}''"
  from assms have r: "r = rev (dropWhile ?P (rev s))" and ne: "dropWhile ?P (rev s) \<noteq> []"
    by (auto simp: upto_last_close_def Let_def split: if_splits)
  from ne have "hd (dropWhile ?P (rev s)) = CHR ''}''"
    using hd_dropWhile [of ?P "rev s"] by simp
  with ne obtain ys where ys: "dropWhile ?P (rev s) = CHR ''}'' # ys"
    by (cases "dropWhile ?P (rev s)") auto
  have "rev s = takeWhile ?P (rev s) @ dropWhile ?P (rev s)" by simp
  then have "s = rev (dropWhile ?P (rev s)) @ rev (takeWhile ?P (rev s))"
    by (metis rev_append rev_rev_ident)
  moreover have "CHR ''}'' \<notin> set (rev (takeWhile ?P (rev s)))"
    by (auto dest: set_takeWhileD)
  ultimately show ?thesis using r ys by auto
qed

lemma upto_last_close_append:
  "CHR ''}'' \<notin> set post \<Longrightarrow> upto_last_close (mid @ CHR ''}'' # post) = Some (mid @ [CHR ''}''])"
proof -
  assume a: "CHR ''}'' \<notin> set post"
  have "dropWhile (\<lambda>c. c \<noteq> CHR ''}'') (rev post @ CHR ''}'' # rev mid) = CHR ''}'' # rev mid"
    using a by (simp add: dropWhile_append3 dropWhile_append)
  then show ?thesis by (simp add: upto_last_close_def Let_def)
qed

lemma search_braces_no_close: "CHR ''}'' \<notin> set t \<Longrightarrow> search_braces t = None"
  by (induction t) (auto simp: upto_last_close_None [THEN iffD2] split: option.splits)

lemma search_braces_Some:
  "search_braces t = Some r \<Longrightarrow>
     \<exists>pre mid post. t = pre @ r @ post \<and> r = CHR ''{'' # mid @ [CHR ''}'']
        \<and> CHR ''{'' \<notin> set pre \<and> CHR ''}'' \<notin> set post"
proof (induction t)
  case Nil
  then show ?case by simp
next
  case (Cons c cs)
  show ?case
  proof (cases "c = CHR ''{''")
    case True
    show ?thesis
    proof (cases "upto_last_close cs")
      case None
      then have "search_braces cs = None"
        by (simp add: upto_last_close_None search_braces_no_close)
      with Cons.prems True None show ?thesis by simp
    next
      case (Some r0)
      with Cons.prems True have r: "r = c # r0" by simp
      from upto_last_close_Some [OF Some] obtain mid post where
        "r0 = mid @ [CHR ''}'']" "cs = r0 @ post" "CHR ''}'' \<notin> set post" by blast
      with r True show ?thesis
        by (intro exI [of _ "[]"] exI [of _ mid] exI [of _ post]) simp
    qed
  next
    case False
    with Cons.prems have "search_braces cs = Some r" by simp
    from Cons.IH [OF this] obtain pre mid post where
      "cs = pre @ r @ post" "r = CHR ''{'' # mid @ [CHR ''}'']"
      "CHR ''{'' \<notin> set pre" "CHR ''}'' \<notin> set post" by blast
    with False show ?thesis
      by (intro exI [of _ "c # pre"] exI [of _ mid] exI [of _ post]) simp
  qed
qed

lemma search_braces_span:
  "CHR ''{'' \<notin> set pre \<Longrightarrow> CHR ''}'' \<notin> set post \<Longrightarrow>
     search_braces (pre @ CHR ''{'' # mid @ CHR ''}'' # post) = Some (CHR ''{'' # mid @ [CHR ''}''])"
  by (induction pre) (auto simp: upto_last_close_append)

lemma isspace_braces [simp]: "\<not> isspace CHR ''{''" "\<not> isspace CHR ''}''"
  by (simp_all add: isspace_def)

lemma strip_around:
  "\<not> isspace a \<Longrightarrow> \<not> isspace b \<Longrightarrow>
   strip (pre @ a # mid @ b # post)
     = dropWhile isspace pre @ a # mid @ b # rev (dropWhile isspace (rev post))"
  by (simp add: strip_def dropWhile_append3)

lemma strip_sublist: "\<exists>a b. s = a @ strip s @ b"
proof -
  let ?d = "dropWhile isspace s"
  have "rev ?d = takeWhile isspace (rev ?d) @ dropWhile isspace (rev ?d)" by simp
  then have "?d = strip s @ rev (takeWhile isspace (rev ?d))"
    unfolding strip_def by (metis rev_append rev_rev_ident)
  moreover have "s = takeWhile isspace s @ ?d" by simp
  ultimately show ?thesis by metis
qed

text \<open>
  C2. For every text: when the trimmed text is JSON whose top level is a mapping,
  \<^verbatim>\<open>extract_json_object\<close> returns that mapping; when the text is not such a JSON text and
  holds one object between a prose without an opening brace and a prose without a closing
  brace, the candidate is the text from the first opening brace to the last closing brace,
  and its mapping is returned; when the text has no opening brace followed by a closing
  brace, the function fails with \<^verbatim>\<open>NoJsonFound\<close>.
\<close>

theorem extract_cases:
  "(loads (strip text) = Inr (JDict obj) \<longrightarrow> extract_json_object loads text = Inr obj)
   \<and> ((\<forall>d. loads (strip text) \<noteq> Inr (JDict d))
       \<and> text = pre @ CHR ''{'' # mid @ CHR ''}'' # post
       \<and> CHR ''{'' \<notin> set pre \<and> CHR ''}'' \<notin> set post
       \<longrightarrow> search_braces (strip text) = Some (CHR ''{'' # mid @ [CHR ''}''])
           \<and> (loads (CHR ''{'' # mid @ [CHR ''}'']) = Inr (JDict obj)
                \<longrightarrow> extract_json_object loads text = Inr obj))
   \<and> ((\<forall>d. loads (strip text) \<noteq> Inr (JDict d))
       \<and> \<not> (\<exists>pre mid post. text = pre @ CHR ''{'' # mid @ CHR ''}'' # post)
       \<longrightarrow> extract_json_object loads text = Inl NoJsonFound)"
proof (intro conjI impI)
  assume "loads (strip text) = Inr (JDict obj)"
  then show "extract_json_object loads text = Inr obj"
    by (simp add: extract_json_object_def loads_dict_def)
next
  assume a: "(\<forall>d. loads (strip text) \<noteq> Inr (JDict d))
       \<and> text = pre @ CHR ''{'' # mid @ CHR ''}'' # post
       \<and> CHR ''{'' \<notin> set pre \<and> CHR ''}'' \<notin> set post"
  have "CHR ''{'' \<notin> set (dropWhile isspace pre)"
    using a by (auto dest: set_dropWhileD)
  moreover have "CHR ''}'' \<notin> set (rev (dropWhile isspace (rev post)))"
    using a by (auto dest: set_dropWhileD)
  ultimately show s: "search_braces (strip text) = Some (CHR ''{'' # mid @ [CHR ''}''])"
    using a by (simp add: strip_around search_braces_span)
  assume "loads (CHR ''{'' # mid @ [CHR ''}'']) = Inr (JDict obj)"
  moreover have "\<exists>e. loads_dict loads (strip text) TopLevelNotObject = Inl e"
    using a by (auto simp: loads_dict_def split: sum.splits json.splits)
  ultimately show "extract_json_object loads text = Inr obj"
    using s by (auto simp: extract_json_object_def loads_dict_def)
next
  assume a: "(\<forall>d. loads (strip text) \<noteq> Inr (JDict d))
       \<and> \<not> (\<exists>pre mid post. text = pre @ CHR ''{'' # mid @ CHR ''}'' # post)"
  have "search_braces (strip text) = None"
  proof (rule ccontr)
    assume "search_braces (strip text) \<noteq> None"
    then obtain r where "search_braces (strip text) = Some r" by auto
    from search_braces_Some [OF this] obtain p m q where
      "strip text = p @ (CHR ''{'' # m @ [CHR ''}'']) @ q" by blast
    moreover obtain x y where "text = x @ strip text @ y" using strip_sublist by blast
    ultimately have "text = (x @ p) @ CHR ''{'' # m @ CHR ''}'' # (q @ y)" by simp
    with a show False by blast
  qed
  moreover have "\<exists>e. loads_dict loads (strip text) TopLevelNotObject = Inl e"
    using a by (auto simp: loads_dict_def split: sum.splits json.splits)
  ultimately show "extract_json_object loads text = Inl NoJsonFound"
    by (auto simp: extract_json_object_def)
qed

theorem extract_cases_witness:
  "loads_docs (strip ('' '' @ json_a1 @ [CHR 0x0A])) = Inr (JDict [(''a'', JInt 1)])
   \<and> extract_json_object loads_docs ('' '' @ json_a1 @ [CHR 0x0A]) = Inr [(''a'', JInt 1)]
   \<and> loads_docs (strip fenced_a1) = Inl JSONDecodeError
   \<and> search_braces (strip fenced_a1) = Some json_a1
   \<and> extract_json_object loads_docs fenced_a1 = Inr [(''a'', JInt 1)]
   \<and> loads_docs (strip ''no json here'') = Inl JSONDecodeError
   \<and> CHR ''{'' \<notin> set ''no json here''
   \<and> extract_json_object loads_docs ''no json here'' = Inl NoJsonFound"
proof -
  have h1: "loads_docs (strip ('' '' @ json_a1 @ [CHR 0x0A])) = Inr (JDict [(''a'', JInt 1)])"
    by code_simp
  have h2: "\<forall>d. loads_docs (strip fenced_a1) \<noteq> Inr (JDict d)"
    by (simp add: loads_docs_def fenced_a1_def json_a1_def strip_def isspace_def)
  have h3: "fenced_a1 = (''Here is the result:'' @ [CHR 0x0A] @ ''```json'' @ [CHR 0x0A])
              @ CHR ''{'' # ([CHR 0x22, CHR ''a'', CHR 0x22] @ '': 1'') @ CHR ''}''
                # ([CHR 0x0A] @ ''```'')"
    by (simp add: fenced_a1_def json_a1_def)
  have h4: "loads_docs (CHR ''{'' # ([CHR 0x22, CHR ''a'', CHR 0x22] @ '': 1'') @ [CHR ''}''])
              = Inr (JDict [(''a'', JInt 1)])"
    by (simp add: loads_docs_def json_a1_def)
  have h5: "\<forall>d. loads_docs (strip ''no json here'') \<noteq> Inr (JDict d)"
    by (simp add: loads_docs_def json_a1_def strip_def isspace_def)
  have "CHR ''{'' \<notin> set ''no json here''" by simp
  then have h6: "\<not> (\<exists>pre mid post. ''no json here'' = pre @ CHR ''{'' # mid @ CHR ''}'' # post)"
    by (metis in_set_conv_decomp)
  have h7: "loads_docs (strip fenced_a1) = Inl JSONDecodeError"
    "loads_docs (strip ''no json here'') = Inl JSONDecodeError"
    by (simp_all add: loads_docs_def fenced_a1_def json_a1_def strip_def isspace_def)
  have j: "CHR ''{'' # ([CHR 0x22, CHR ''a'', CHR 0x22] @ '': 1'') @ [CHR ''}''] = json_a1"
    by (simp add: json_a1_def)
  show ?thesis
    using h1 h2 h3 h4 h5 h6 h7
      extract_cases [of loads_docs "'' '' @ json_a1 @ [CHR 0x0A]" "[(''a'', JInt 1)]"]
      extract_cases [of loads_docs fenced_a1 "[(''a'', JInt 1)]"
        "''Here is the result:'' @ [CHR 0x0A] @ ''```json'' @ [CHR 0x0A]"
        "[CHR 0x22, CHR ''a'', CHR 0x22] @ '': 1''" "[CHR 0x0A] @ ''```''"]
      extract_cases [of loads_docs "''no json here''"]
    unfolding j by simp
qed

text \<open>
  C10. When the trimmed text is JSON whose top level is not a mapping, the error of the
  first attempt is caught and the result is that of the search for braces: the array around
  the object \<^verbatim>\<open>{"a": 1}\<close> gives that object, and \<^verbatim>\<open>[1, 2]\<close> gives \<^verbatim>\<open>NoJsonFound\<close>. The
  error of the first attempt never leaves the function, and neither does \<^verbatim>\<open>NotAnObject\<close>
  as long as a text that begins with a brace parses to a mapping or not at all.
\<close>

theorem extract_non_mapping:
  "(loads (strip text) = Inr v \<and> (\<forall>d. v \<noteq> JDict d) \<longrightarrow>
      extract_json_object loads text
        = (case search_braces (strip text) of
             None \<Rightarrow> Inl NoJsonFound
           | Some candidate \<Rightarrow> loads_dict loads candidate NotAnObject))
   \<and> extract_json_object loads text \<noteq> Inl TopLevelNotObject
   \<and> ((\<forall>t w. loads t = Inr w \<and> take 1 t = ''{'' \<longrightarrow> (\<exists>d. w = JDict d))
        \<longrightarrow> extract_json_object loads text \<noteq> Inl NotAnObject)
   \<and> extract_json_object loads_docs (''['' @ json_a1 @ '']'') = Inr [(''a'', JInt 1)]
   \<and> extract_json_object loads_docs ''[1, 2]'' = Inl NoJsonFound"
proof (intro conjI impI)
  assume "loads (strip text) = Inr v \<and> (\<forall>d. v \<noteq> JDict d)"
  then have "loads_dict loads (strip text) TopLevelNotObject = Inl TopLevelNotObject"
    by (cases v) (auto simp: loads_dict_def)
  then show "extract_json_object loads text
        = (case search_braces (strip text) of
             None \<Rightarrow> Inl NoJsonFound
           | Some candidate \<Rightarrow> loads_dict loads candidate NotAnObject)"
    by (simp add: extract_json_object_def)
next
  have "loads_dict loads c NotAnObject \<noteq> Inl TopLevelNotObject" for c
    by (auto simp: loads_dict_def split: sum.splits json.splits)
  then show "extract_json_object loads text \<noteq> Inl TopLevelNotObject"
    by (auto simp: extract_json_object_def Let_def split: sum.splits option.splits)
next
  assume h: "\<forall>t w. loads t = Inr w \<and> take 1 t = ''{'' \<longrightarrow> (\<exists>d. w = JDict d)"
  have "loads_dict loads c NotAnObject \<noteq> Inl NotAnObject"
    if "search_braces (strip text) = Some c" for c
  proof -
    from search_braces_Some [OF that] have "take 1 c = ''{''" by auto
    with h show ?thesis
      by (fastforce simp: loads_dict_def split: sum.splits json.splits)
  qed
  then show "extract_json_object loads text \<noteq> Inl NotAnObject"
    by (auto simp: extract_json_object_def Let_def split: sum.splits option.splits)
next
  show "extract_json_object loads_docs (''['' @ json_a1 @ '']'') = Inr [(''a'', JInt 1)]"
    by code_simp
next
  show "extract_json_object loads_docs ''[1, 2]'' = Inl NoJsonFound"
    by code_simp
qed

theorem extract_non_mapping_witness:
  "loads_docs (strip (''['' @ json_a1 @ '']'')) = Inr (JList [JDict [(''a'', JInt 1)]])
   \<and> search_braces (strip (''['' @ json_a1 @ '']'')) = Some json_a1
   \<and> extract_json_object loads_docs (''['' @ json_a1 @ '']'')
       = loads_dict loads_docs json_a1 NotAnObject
   \<and> extract_json_object loads_docs (''['' @ json_a1 @ '']'') \<noteq> Inl NotAnObject"
proof -
  have h1: "loads_docs (strip (''['' @ json_a1 @ '']'')) = Inr (JList [JDict [(''a'', JInt 1)]])"
    by code_simp
  have h2: "search_braces (strip (''['' @ json_a1 @ '']'')) = Some json_a1"
    by code_simp
  have h3: "\<forall>t w. loads_docs t = Inr w \<and> take 1 t = ''{'' \<longrightarrow> (\<exists>d. w = JDict d)"
    by (auto simp: loads_docs_def json_a1_def split: if_splits)
  have h4: "loads_dict loads_docs json_a1 NotAnObject = Inr [(''a'', JInt 1)]"
    by (simp add: loads_dict_def loads_docs_def)
  show ?thesis
    using h1 h2 h3 h4
      extract_non_mapping [of loads_docs "''['' @ json_a1 @ '']''" "JList [JDict [(''a'', JInt 1)]]"]
    by simp
qed

section \<open>The region of the root element\<close>

lemma ci_starts_Nil [simp]: "ci_starts p [] = (p = [])"
  by (auto simp: ci_starts_def)

lemma ci_starts_length:
  assumes "ci_starts p s"
  shows "length p \<le> length s"
proof -
  from assms have "length (map lower (take (length p) s)) = length p"
    by (simp only: ci_starts_def)
  then show ?thesis by simp
qed

lemma ci_starts_drop_take:
  "k + length p \<le> m \<Longrightarrow> ci_starts p (drop k (take m t)) = ci_starts p (drop k t)"
  by (simp add: ci_starts_def drop_take min_def)

lemma closes_steps_take:
  "k + 8 \<le> m \<Longrightarrow> closes_steps (drop k (take m t)) = closes_steps (drop k t)"
  by (simp add: closes_steps_def ci_starts_drop_take)

lemma find_close_Some:
  "find_close s = Some n \<Longrightarrow>
     8 \<le> n \<and> n \<le> length s \<and> closes_steps (drop (n - 8) s)
     \<and> (\<forall>k < n - 8. \<not> closes_steps (drop k s))"
proof (induction s arbitrary: n)
  case Nil
  then show ?case by simp
next
  case (Cons c cs)
  show ?case
  proof (cases "ci_starts ''</steps>'' (c # cs)")
    case True
    with Cons.prems have "n = 8" by simp
    with True ci_starts_length [OF True] show ?thesis
      by (simp add: closes_steps_def)
  next
    case False
    with Cons.prems obtain m where m: "find_close cs = Some m" "n = Suc m" by auto
    from Cons.IH [OF m(1)] have ih: "8 \<le> m" "m \<le> length cs" "closes_steps (drop (m - 8) cs)"
      "\<forall>k < m - 8. \<not> closes_steps (drop k cs)" by auto
    have "\<not> closes_steps (drop k (c # cs))" if "k < n - 8" for k
    proof (cases k)
      case 0
      with False show ?thesis by (simp add: closes_steps_def)
    next
      case (Suc j)
      with that m ih show ?thesis by simp
    qed
    moreover have "n - 8 = Suc (m - 8)" using m ih by arith
    then have "drop (n - 8) (c # cs) = drop (m - 8) cs" by simp
    ultimately show ?thesis using m ih by simp
  qed
qed

lemma find_close_None: "find_close s = None \<Longrightarrow> \<not> closes_steps (drop k s)"
proof (induction s arbitrary: k)
  case Nil
  then show ?case by (simp add: closes_steps_def)
next
  case (Cons c cs)
  then show ?case
    by (cases k) (auto simp: closes_steps_def split: if_splits)
qed

lemma search_steps_Some:
  "search_steps t = Some r \<Longrightarrow>
     \<exists>pre post. t = pre @ r @ post
       \<and> opens_steps (r @ post) \<and> (\<forall>i < length pre. \<not> opens_steps (drop i t))
       \<and> 14 \<le> length r \<and> closes_steps (drop (length r - 8) r)
       \<and> (\<forall>k. 6 \<le> k \<and> k < length r - 8 \<longrightarrow> \<not> closes_steps (drop k r))"
proof (induction t)
  case Nil
  then show ?case by simp
next
  case (Cons c cs)
  let ?t = "c # cs"
  have later: ?case if s: "search_steps cs = Some r" and no: "\<not> opens_steps ?t"
  proof -
    from Cons.IH [OF s] obtain pre post where ih:
      "cs = pre @ r @ post" "opens_steps (r @ post)"
      "\<forall>i < length pre. \<not> opens_steps (drop i cs)"
      "14 \<le> length r" "closes_steps (drop (length r - 8) r)"
      "\<forall>k. 6 \<le> k \<and> k < length r - 8 \<longrightarrow> \<not> closes_steps (drop k r)" by blast
    have "\<not> opens_steps (drop i ?t)" if "i < length (c # pre)" for i
      using that no ih(3) by (cases i) auto
    with ih show ?thesis
      by (intro exI [of _ "c # pre"] exI [of _ post]) simp
  qed
  show ?case
  proof (cases "ci_starts ''<steps'' ?t \<and> word_boundary (drop 5 cs)")
    case False
    then have "\<not> opens_steps ?t" by (simp add: opens_steps_def)
    moreover from False Cons.prems have "search_steps cs = Some r" by auto
    ultimately show ?thesis by (rule later [rotated])
  next
    case True
    then have op: "opens_steps ?t" by (simp add: opens_steps_def)
    from True have len: "5 \<le> length cs" using ci_starts_length [of "''<steps''" ?t] by simp
    show ?thesis
    proof (cases "find_close (drop 5 cs)")
      case None
      with True Cons.prems have s: "search_steps cs = Some r" by simp
      from Cons.IH [OF s] obtain pre post where ih:
        "cs = pre @ r @ post" "14 \<le> length r" "closes_steps (drop (length r - 8) r)"
        by blast
      have e1: "drop (length pre + (length r - 8)) cs = drop (length r - 8) r @ post"
        using ih by simp
      have e2: "closes_steps (drop (length r - 8) r @ post)"
        using ih(3) ih(2) by (simp add: closes_steps_def ci_starts_def)
      have a5: "length pre + (length r - 8) - 5 + 5 = length pre + (length r - 8)"
        using ih(2) by arith
      have e3: "drop (length pre + (length r - 8) - 5) (drop 5 cs)
          = drop (length pre + (length r - 8)) cs"
        by (simp only: drop_drop a5)
      have "closes_steps (drop (length pre + (length r - 8) - 5) (drop 5 cs))"
        by (simp only: e3 e1 e2)
      with find_close_None [OF None] show ?thesis by blast
    next
      case (Some n)
      with True Cons.prems have r: "r = take (6 + n) ?t" by simp
      from find_close_Some [OF Some] have fc:
        "8 \<le> n" "n \<le> length cs - 5" "closes_steps (drop (n - 8) (drop 5 cs))"
        "\<forall>k < n - 8. \<not> closes_steps (drop k (drop 5 cs))" by auto
      have lr: "length r = 6 + n" using r fc len by simp
      have t: "r @ drop (6 + n) ?t = ?t" unfolding r by (rule append_take_drop_id)
      have c1: "closes_steps (drop (length r - 8) r)"
      proof -
        have "n - 2 = Suc (n - 3)" "n - 8 + 5 = n - 3" using fc(1) by arith+
        then have "drop (n - 2) ?t = drop (n - 8) (drop 5 cs)" by simp
        with fc(3) have "closes_steps (drop (n - 2) ?t)" by simp
        moreover have "n - 2 + 8 \<le> 6 + n" using fc(1) by arith
        ultimately have "closes_steps (drop (n - 2) (take (6 + n) ?t))"
          by (simp only: closes_steps_take)
        moreover have "length r - 8 = n - 2" using lr by arith
        ultimately show ?thesis by (simp only: r [symmetric])
      qed
      have c2: "\<not> closes_steps (drop k r)" if kk: "6 \<le> k \<and> k < length r - 8" for k
      proof
        assume "closes_steps (drop k r)"
        then have "closes_steps (drop k (take (6 + n) ?t))" by (simp only: r)
        moreover have "k + 8 \<le> 6 + n" using kk lr by arith
        ultimately have a: "closes_steps (drop k ?t)" by (simp only: closes_steps_take)
        have j: "k = Suc (k - 6 + 5)" and b: "k - 6 < n - 8"
          using kk lr by arith+
        have "drop (Suc (k - 6 + 5)) ?t = drop (k - 6) (drop 5 cs)"
          by (simp only: drop_Suc_Cons drop_drop)
        then have "drop k ?t = drop (k - 6) (drop 5 cs)"
          by (subst j) (rule HOL.refl [THEN HOL.trans])
        with a have "closes_steps (drop (k - 6) (drop 5 cs))" by (simp only:)
        with fc(4) b show False by blast
      qed
      from op have o: "opens_steps (r @ drop (6 + n) ?t)" by (simp only: t)
      have l: "14 \<le> length r" using lr fc(1) by arith
      show ?thesis
      proof (intro exI conjI)
        show "?t = [] @ r @ drop (6 + n) ?t" by (simp only: append_Nil t)
        show "opens_steps (r @ drop (6 + n) ?t)" by (rule o)
        show "\<forall>i < length ([]::string). \<not> opens_steps (drop i ?t)" by simp
        show "14 \<le> length r" by (rule l)
        show "closes_steps (drop (length r - 8) r)" by (rule c1)
        show "\<forall>k. 6 \<le> k \<and> k < length r - 8 \<longrightarrow> \<not> closes_steps (drop k r)"
          using c2 by blast
      qed
    qed
  qed
qed

text \<open>
  C9, as stated, fails for the markup: the pattern of the root element is not greedy, and
  the region ends at the first closing tag after the opening tag, not at the last one of the
  text. Here a closing tag is left behind the region.
\<close>

theorem steps_region_counterexample:
  "search_steps ''<steps>a</steps>b</steps>'' = Some ''<steps>a</steps>''
   \<and> ''<steps>a</steps>b</steps>'' = ''<steps>a</steps>'' @ ''b</steps>''
   \<and> closes_steps (drop 1 ''b</steps>'')"
  by code_simp

text \<open>
  C9, amended. The JSON candidate is the one substring from the first opening brace to the
  last closing brace of the text. The markup region begins at the first opening marker of
  the text (\<^verbatim>\<open><steps\<close> in any letter case, followed by a word boundary) and ends with the
  first closing tag \<^verbatim>\<open></steps>\<close> after it.
\<close>

theorem region_spans:
  "(search_braces t = Some r \<longrightarrow>
      (\<exists>pre mid post. t = pre @ r @ post \<and> r = CHR ''{'' # mid @ [CHR ''}'']
         \<and> CHR ''{'' \<notin> set pre \<and> CHR ''}'' \<notin> set post))
   \<and> (search_steps t = Some r \<longrightarrow>
      (\<exists>pre post. t = pre @ r @ post
         \<and> opens_steps (r @ post) \<and> (\<forall>i < length pre. \<not> opens_steps (drop i t))
         \<and> 14 \<le> length r \<and> closes_steps (drop (length r - 8) r)
         \<and> (\<forall>k. 6 \<le> k \<and> k < length r - 8 \<longrightarrow> \<not> closes_steps (drop k r))))"
  using search_braces_Some [of t r] search_steps_Some [of t r] by blast

theorem region_spans_witness:
  "search_braces ''x {a} y {b} z'' = Some ''{a} y {b}''
   \<and> ''x {a} y {b} z'' = ''x '' @ ''{a} y {b}'' @ '' z''
   \<and> search_steps ''<steps>a</steps>b</steps>'' = Some ''<steps>a</steps>''
   \<and> ''<steps>a</steps>b</steps>'' = [] @ ''<steps>a</steps>'' @ ''b</steps>''
   \<and> 14 \<le> length ''<steps>a</steps>''
   \<and> closes_steps (drop (length ''<steps>a</steps>'' - 8) ''<steps>a</steps>'')"
proof -
  have b: "search_braces ''x {a} y {b} z'' = Some ''{a} y {b}''"
    by code_simp
  have s: "search_steps ''<steps>a</steps>b</steps>'' = Some ''<steps>a</steps>''"
    by code_simp
  from b s region_spans [of "''x {a} y {b} z''" "''{a} y {b}''"]
    region_spans [of "''<steps>a</steps>b</steps>''" "''<steps>a</steps>''"]
  have "14 \<le> length ''<steps>a</steps>''
   \<and> closes_steps (drop (length ''<steps>a</steps>'' - 8) ''<steps>a</steps>'')"
    by blast
  with b s show ?thesis by simp
qed

section \<open>Cleaning a text carrier\<close>

lemma tag_ahead_iff:
  "(let n = length (takeWhile (\<lambda>d. d \<noteq> CHR ''>'') cs) in 0 < n \<and> n < length cs)
     \<longleftrightarrow> cs \<noteq> [] \<and> hd cs \<noteq> CHR ''>'' \<and> CHR ''>'' \<in> set cs"
proof -
  let ?P = "\<lambda>d. d \<noteq> CHR ''>''"
  have a: "0 < length (takeWhile ?P cs) \<longleftrightarrow> cs \<noteq> [] \<and> hd cs \<noteq> CHR ''>''"
    by (cases cs) auto
  have "length (takeWhile ?P cs) < length cs \<longleftrightarrow> takeWhile ?P cs \<noteq> cs"
    using length_takeWhile_le [of ?P cs]
    by (metis le_neq_implies_less nat_less_le takeWhile_eq_take take_all_iff order_refl)
  then have b: "length (takeWhile ?P cs) < length cs \<longleftrightarrow> CHR ''>'' \<in> set cs"
    by (auto simp: takeWhile_eq_all_conv)
  show ?thesis using a b by (simp add: Let_def)
qed

lemma sub_tags_set: "set (sub_tags s) \<subseteq> insert CHR '' '' (set s)"
proof (induction s rule: sub_tags.induct)
  case 1
  then show ?case by simp
next
  case (2 c cs)
  then show ?case
    by (auto simp: Let_def dest: in_set_dropD split: if_splits)
qed

lemma sub_tags_fixed: "tag_free s \<Longrightarrow> sub_tags s = s"
  by (induction s) (auto simp: Let_def)

lemma sub_tags_hd_close: "sub_tags (CHR ''>'' # cs) = CHR ''>'' # sub_tags cs"
  by (simp add: Let_def)

lemma tag_free_sub_tags: "tag_free (sub_tags s)"
proof (induction s rule: sub_tags.induct)
  case 1
  then show ?case by simp
next
  case (2 c cs)
  let ?n = "length (takeWhile (\<lambda>d. d \<noteq> CHR ''>'') cs)"
  show ?case
  proof (cases "c = CHR ''<'' \<and> 0 < ?n \<and> ?n < length cs")
    case True
    with 2 show ?thesis by (simp add: Let_def)
  next
    case False
    with 2 have ih: "tag_free (sub_tags cs)" by (simp add: Let_def)
    have "\<not> (sub_tags cs \<noteq> [] \<and> hd (sub_tags cs) \<noteq> CHR ''>'' \<and> CHR ''>'' \<in> set (sub_tags cs))"
      if c: "c = CHR ''<''"
    proof -
      from False c have
        "\<not> (let n = length (takeWhile (\<lambda>d. d \<noteq> CHR ''>'') cs) in 0 < n \<and> n < length cs)"
        by (simp add: Let_def)
      then have "\<not> (cs \<noteq> [] \<and> hd cs \<noteq> CHR ''>'' \<and> CHR ''>'' \<in> set cs)"
        unfolding tag_ahead_iff .
      then consider "cs = []" | cs' where "cs = CHR ''>'' # cs'" | "CHR ''>'' \<notin> set cs"
        by (cases cs) auto
      then show ?thesis
      proof cases
        case 1
        then show ?thesis by simp
      next
        case 2
        then show ?thesis by (simp only: sub_tags_hd_close) simp
      next
        case 3
        then have "CHR ''>'' \<notin> set (sub_tags cs)" using sub_tags_set [of cs] by auto
        then show ?thesis by simp
      qed
    qed
    then have "c = CHR ''<'' \<longrightarrow>
       \<not> (let n = length (takeWhile (\<lambda>d. d \<noteq> CHR ''>'') (sub_tags cs))
          in 0 < n \<and> n < length (sub_tags cs))"
      unfolding tag_ahead_iff by blast
    moreover have "sub_tags (c # cs) = c # sub_tags cs"
      using False by (simp add: Let_def)
    ultimately show ?thesis using ih by (simp only: tag_free.simps)
  qed
qed


lemma tag_free_append: "tag_free (xs @ ys) \<Longrightarrow> tag_free ys"
  by (induction xs) auto

lemma tag_free_dropWhile: "tag_free s \<Longrightarrow> tag_free (dropWhile P s)"
  using tag_free_append [of "takeWhile P s" "dropWhile P s"] by simp

lemma sub_spaces_set: "set (sub_spaces s) \<subseteq> insert CHR '' '' (set s)"
proof (induction s rule: sub_spaces.induct)
  case 1
  then show ?case by simp
next
  case (2 c cs)
  then show ?case by (auto dest: set_dropWhileD split: if_splits)
qed

lemma isspace_close [simp]: "\<not> isspace CHR ''>''" "isspace CHR '' ''"
  by (simp_all add: isspace_def)

lemma tag_free_sub_spaces: "tag_free s \<Longrightarrow> tag_free (sub_spaces s)"
proof (induction s rule: sub_spaces.induct)
  case 1
  then show ?case by simp
next
  case (2 c cs)
  show ?case
  proof (cases "isspace c")
    case True
    from "2.prems" have "tag_free (dropWhile isspace cs)" by (simp add: tag_free_dropWhile)
    with 2 True show ?thesis by simp
  next
    case False
    from "2.prems" have tf: "tag_free cs" by simp
    with 2 False have ih: "tag_free (sub_spaces cs)" by simp
    have "\<not> (sub_spaces cs \<noteq> [] \<and> hd (sub_spaces cs) \<noteq> CHR ''>''
            \<and> CHR ''>'' \<in> set (sub_spaces cs))"
      if c: "c = CHR ''<''"
    proof -
      from "2.prems" c have
        "\<not> (let n = length (takeWhile (\<lambda>d. d \<noteq> CHR ''>'') cs) in 0 < n \<and> n < length cs)"
        by simp
      then have "\<not> (cs \<noteq> [] \<and> hd cs \<noteq> CHR ''>'' \<and> CHR ''>'' \<in> set cs)"
        unfolding tag_ahead_iff .
      then consider "cs = []" | cs' where "cs = CHR ''>'' # cs'" | "CHR ''>'' \<notin> set cs"
        by (cases cs) auto
      then show ?thesis
      proof cases
        case 1
        then show ?thesis by simp
      next
        case 2
        then show ?thesis by simp
      next
        case 3
        then have "CHR ''>'' \<notin> set (sub_spaces cs)" using sub_spaces_set [of cs] by auto
        then show ?thesis by simp
      qed
    qed
    then have "c = CHR ''<'' \<longrightarrow>
       \<not> (let n = length (takeWhile (\<lambda>d. d \<noteq> CHR ''>'') (sub_spaces cs))
          in 0 < n \<and> n < length (sub_spaces cs))"
      unfolding tag_ahead_iff by blast
    moreover have "sub_spaces (c # cs) = c # sub_spaces cs"
      using False by simp
    ultimately show ?thesis using ih by (simp only: tag_free.simps)
  qed
qed

lemma tag_free_butspaces:
  "tag_free (xs @ ws) \<Longrightarrow> \<forall>w \<in> set ws. isspace w \<Longrightarrow> tag_free xs"
proof (induction xs)
  case Nil
  then show ?case by simp
next
  case (Cons c xs)
  then have ih: "tag_free xs" by simp
  have "\<not> (xs \<noteq> [] \<and> hd xs \<noteq> CHR ''>'' \<and> CHR ''>'' \<in> set xs)" if c: "c = CHR ''<''"
  proof -
    from Cons.prems(1) c have
      "\<not> (let n = length (takeWhile (\<lambda>d. d \<noteq> CHR ''>'') (xs @ ws))
          in 0 < n \<and> n < length (xs @ ws))"
      by simp
    then have "\<not> (xs @ ws \<noteq> [] \<and> hd (xs @ ws) \<noteq> CHR ''>'' \<and> CHR ''>'' \<in> set (xs @ ws))"
      unfolding tag_ahead_iff .
    then show ?thesis by (cases xs) auto
  qed
  then have "c = CHR ''<'' \<longrightarrow>
       \<not> (let n = length (takeWhile (\<lambda>d. d \<noteq> CHR ''>'') xs) in 0 < n \<and> n < length xs)"
    unfolding tag_ahead_iff by blast
  with ih show ?case by (simp only: tag_free.simps)
qed

lemma rstrip_split:
  "s = rev (dropWhile isspace (rev s)) @ rev (takeWhile isspace (rev s))"
  by (metis rev_append rev_rev_ident takeWhile_dropWhile_id)

lemma tag_free_strip: "tag_free s \<Longrightarrow> tag_free (strip s)"
proof -
  assume "tag_free s"
  then have d: "tag_free (dropWhile isspace s)" by (rule tag_free_dropWhile)
  let ?d = "dropWhile isspace s"
  have "?d = strip s @ rev (takeWhile isspace (rev ?d))"
    unfolding strip_def by (rule rstrip_split)
  moreover have "\<forall>w \<in> set (rev (takeWhile isspace (rev ?d))). isspace w"
    by (auto dest: set_takeWhileD)
  ultimately show ?thesis using d tag_free_butspaces by metis
qed

lemma sub_spaces_fixed: "collapsed s \<Longrightarrow> sub_spaces s = s"
proof (induction s)
  case Nil
  then show ?case by simp
next
  case (Cons c cs)
  then have "dropWhile isspace cs = cs" if "isspace c"
    using that by (cases cs) auto
  with Cons show ?case by auto
qed

lemma sub_spaces_hd: "s \<noteq> [] \<Longrightarrow> \<not> isspace (hd s) \<Longrightarrow> hd (sub_spaces s) = hd s \<and> sub_spaces s \<noteq> []"
  by (cases s) auto

lemma collapsed_sub_spaces: "collapsed (sub_spaces s)"
proof (induction s rule: sub_spaces.induct)
  case 1
  then show ?case by simp
next
  case (2 c cs)
  show ?case
  proof (cases "isspace c")
    case True
    let ?d = "dropWhile isspace cs"
    have "sub_spaces ?d = [] \<or> \<not> isspace (hd (sub_spaces ?d))"
    proof (cases "?d = []")
      case True
      show ?thesis unfolding True by simp
    next
      case False
      then have "\<not> isspace (hd ?d)" by (rule hd_dropWhile)
      with False show ?thesis using sub_spaces_hd [of ?d] by simp
    qed
    with 2 True show ?thesis by simp
  next
    case False
    with 2 show ?thesis by simp
  qed
qed

lemma collapsed_append: "collapsed (xs @ ys) \<Longrightarrow> collapsed xs \<and> collapsed ys"
proof (induction xs)
  case Nil
  then show ?case by simp
next
  case (Cons c xs)
  then show ?case by (cases xs) auto
qed

lemma collapsed_strip: "collapsed s \<Longrightarrow> collapsed (strip s)"
proof -
  assume c: "collapsed s"
  let ?d = "dropWhile isspace s"
  have "s = takeWhile isspace s @ ?d" by simp
  with c have "collapsed ?d" using collapsed_append by metis
  moreover have "?d = strip s @ rev (takeWhile isspace (rev ?d))"
    unfolding strip_def by (rule rstrip_split)
  ultimately show ?thesis using collapsed_append by metis
qed

lemma strip_fixed:
  assumes "s = [] \<or> (\<not> isspace (hd s) \<and> \<not> isspace (last s))"
  shows "strip s = s"
proof (cases "s = []")
  case True
  then show ?thesis by (simp add: strip_def)
next
  case False
  with assms have h: "\<not> isspace (hd s)" "\<not> isspace (last s)" by auto
  from False h(1) have "dropWhile isspace s = s" by (cases s) auto
  moreover from False h(2) have "dropWhile isspace (rev s) = rev s"
    by (cases "rev s") (auto simp: last_rev [symmetric] hd_rev)
  ultimately show ?thesis by (simp add: strip_def)
qed

lemma strip_ends: "strip s = [] \<or> (\<not> isspace (hd (strip s)) \<and> \<not> isspace (last (strip s)))"
proof (cases "strip s = []")
  case True
  then show ?thesis by simp
next
  case False
  let ?d = "dropWhile isspace s"
  let ?e = "dropWhile isspace (rev ?d)"
  from False have e: "?e \<noteq> []" by (simp add: strip_def)
  then have "\<not> isspace (hd ?e)" by (rule hd_dropWhile)
  then have l: "\<not> isspace (last (strip s))" using e by (simp add: strip_def last_rev)
  have dne: "?d \<noteq> []"
  proof
    assume a: "?d = []"
    have "?e = []" unfolding a by simp
    with e show False by contradiction
  qed
  then have hd: "\<not> isspace (hd ?d)" by (rule hd_dropWhile)
  have "?d = strip s @ rev (takeWhile isspace (rev ?d))"
    unfolding strip_def by (rule rstrip_split)
  with False have "hd ?d = hd (strip s)" by (metis hd_append2)
  with hd l show ?thesis by simp
qed

lemma strip_strip: "strip (strip s) = strip s"
  using strip_ends by (rule strip_fixed)

lemma markup_clean_fixed:
  "sub_tags (strip (sub_spaces (sub_tags u))) = strip (sub_spaces (sub_tags u))"
  "sub_spaces (strip (sub_spaces (sub_tags u))) = strip (sub_spaces (sub_tags u))"
  by (simp_all add: sub_tags_fixed tag_free_strip tag_free_sub_spaces tag_free_sub_tags
      sub_spaces_fixed collapsed_strip collapsed_sub_spaces)

text \<open>
  C5, as stated, fails: the cleaning unescapes the references of its argument each time it
  runs, so a reference that is itself escaped loses one level per pass. The first pass turns
  \<^verbatim>\<open>&amp;lt;\<close> into \<^verbatim>\<open>&lt;\<close>, and the second pass turns that into \<^verbatim>\<open><\<close>.
\<close>

theorem clean_twice_counterexample:
  "clean replace_charref_xml ''&amp;lt;'' = Inr ''&lt;''
   \<and> clean replace_charref_xml ''&lt;'' = Inr ''<''"
  by code_simp

text \<open>
  C5, amended. Stripping the tags, collapsing the white space and trimming are stable under
  repetition, and so is the whole cleaning of a text whose cleaned form holds no ampersand,
  which the second unescape would read as the start of a reference.
\<close>

theorem clean_twice:
  "(clean replace_charref x = Inr y \<and> CHR ''&'' \<notin> set y \<longrightarrow> clean replace_charref y = Inr y)
   \<and> strip (sub_spaces (sub_tags (strip (sub_spaces (sub_tags z)))))
       = strip (sub_spaces (sub_tags z))"
proof (intro conjI impI)
  assume a: "clean replace_charref x = Inr y \<and> CHR ''&'' \<notin> set y"
  then obtain u where y: "y = strip (sub_spaces (sub_tags u))"
    by (auto simp: clean_def split: sum.splits)
  from a have "unescape replace_charref y = Inr y"
    by (simp add: unescape_def)
  then have "clean replace_charref y = Inr (strip (sub_spaces (sub_tags y)))"
    by (simp add: clean_def)
  also have "strip (sub_spaces (sub_tags y)) = y"
    unfolding y by (simp only: markup_clean_fixed strip_strip)
  finally show "clean replace_charref y = Inr y" .
next
  show "strip (sub_spaces (sub_tags (strip (sub_spaces (sub_tags z)))))
       = strip (sub_spaces (sub_tags z))"
    by (simp only: markup_clean_fixed strip_strip)
qed

theorem clean_twice_witness:
  "clean replace_charref_xml ''Open &lt;b&gt;App&lt;/b&gt;  now'' = Inr ''Open App now''
   \<and> CHR ''&'' \<notin> set ''Open App now''
   \<and> clean replace_charref_xml ''Open App now'' = Inr ''Open App now''"
proof -
  have a: "clean replace_charref_xml ''Open &lt;b&gt;App&lt;/b&gt;  now'' = Inr ''Open App now''"
    by code_simp
  have b: "CHR ''&'' \<notin> set ''Open App now''" by simp
  from a b clean_twice [of replace_charref_xml "''Open &lt;b&gt;App&lt;/b&gt;  now''"
      "''Open App now''"]
  show ?thesis by simp
qed

section \<open>The parser\<close>

text \<open>
  The two calls of \<^verbatim>\<open>ET.fromstring\<close> sit in \<^verbatim>\<open>_try_parse\<close>, which catches what they raise.
  The calls of \<^verbatim>\<open>html.unescape\<close>, in strategy B and in \<^verbatim>\<open>_clean\<close>, sit in no \<^verbatim>\<open>try\<close>: the
  parser returns a sequence as long as they raise nothing, and the empty one for \<^verbatim>\<open>None\<close>,
  for the empty text and when both parses fail.
\<close>

lemma charref_sub_total:
  "\<forall>g. \<exists>r. replace_charref g = Inr r \<Longrightarrow> \<exists>u. charref_sub replace_charref s = Inr u"
proof (induction replace_charref s rule: charref_sub.induct)
  case (1 replace_charref)
  then show ?case by simp
next
  case (2 replace_charref c cs)
  show ?case
  proof (cases "c = CHR ''&'' \<and> 0 < charref_len cs")
    case True
    from "2.prems" obtain r where r: "replace_charref (take (charref_len cs) cs) = Inr r"
      by blast
    from "2.IH"(1) [OF True r "2.prems"] obtain u where
      "charref_sub replace_charref (drop (charref_len cs) cs) = Inr u" by blast
    with True r show ?thesis by simp
  next
    case False
    from "2.IH"(2) [OF False "2.prems"] obtain u where
      "charref_sub replace_charref cs = Inr u" by blast
    with False show ?thesis by auto
  qed
qed

lemma unescape_total:
  "\<forall>g. \<exists>r. replace_charref g = Inr r \<Longrightarrow> \<exists>u. unescape replace_charref s = Inr u"
  using charref_sub_total [of replace_charref s] by (simp add: unescape_def)

lemma clean_total:
  "\<forall>g. \<exists>r. replace_charref g = Inr r \<Longrightarrow> \<exists>u. clean replace_charref s = Inr u"
  using unescape_total [of replace_charref s] by (auto simp: clean_def)

lemma step_records_total:
  assumes "\<forall>g. \<exists>r. replace_charref g = Inr r"
  shows "\<exists>out. step_records replace_charref step = Inr out"
proof -
  obtain a where "clean replace_charref
      (if length (findall_children ''parameterizedString'' step) > 0
       then text_of (Some (findall_children ''parameterizedString'' step ! 0)) else []) = Inr a"
    using clean_total [OF assms] by blast
  moreover obtain b where "clean replace_charref
      (if length (findall_children ''parameterizedString'' step) > 1
       then text_of (Some (findall_children ''parameterizedString'' step ! 1)) else []) = Inr b"
    using clean_total [OF assms] by blast
  ultimately show ?thesis by (simp add: step_records_def Let_def)
qed

lemma records_loop_total:
  assumes "\<forall>g. \<exists>r. replace_charref g = Inr r"
  shows "\<exists>out. records_loop replace_charref steps = Inr out"
proof (induction steps)
  case Nil
  then show ?case by simp
next
  case (Cons step rest)
  moreover obtain out where "step_records replace_charref step = Inr out"
    using step_records_total [OF assms] by blast
  ultimately show ?case by auto
qed

lemma parse_total:
  assumes "\<forall>g. \<exists>r. replace_charref g = Inr r"
  shows "\<exists>out. parse_steps_from_tcm_field fromstring replace_charref v = Inr out"
proof -
  have u: "\<exists>b. strategy_b replace_charref raw = Inr b" for raw
    using unescape_total [OF assms, of raw] by (auto simp: strategy_b_def Let_def)
  have p: "\<exists>rt. parse_root fromstring replace_charref raw = Inr rt" for raw
    using u [of raw] by (auto simp: parse_root_def Let_def)
  have r: "\<exists>out. raised (records_of replace_charref rt) = Inr out" for rt
  proof -
    obtain out where "records_loop replace_charref (findall_descendants ''step'' rt) = Inr out"
      using records_loop_total [OF assms] by blast
    then show ?thesis by (simp add: records_of_def raised_def)
  qed
  show ?thesis
  proof (cases v)
    case None
    then show ?thesis by (simp add: parse_steps_from_tcm_field_def)
  next
    case (Some s)
    obtain rt where "parse_root fromstring replace_charref (strip s) = Inr rt"
      using p by blast
    with Some r show ?thesis
      by (cases rt) (auto simp: parse_steps_from_tcm_field_def)
  qed
qed

lemma parse_degrades:
  "parse_steps_from_tcm_field fromstring replace_charref None = Inr []"
  "parse_steps_from_tcm_field fromstring replace_charref (Some []) = Inr []"
  "fromstring (strip s) = Inl e1 \<Longrightarrow> strategy_b replace_charref (strip s) = Inr xml_blob \<Longrightarrow>
     fromstring xml_blob = Inl e2 \<Longrightarrow>
     parse_steps_from_tcm_field fromstring replace_charref (Some s) = Inr []"
  by (simp_all add: parse_steps_from_tcm_field_def parse_root_def try_parse_def)

lemma isdec_one [simp]: "isdec CHR ''1''" "\<not> isdec CHR '';''"
  by (simp_all add: isdec_def)

lemma takeWhile_ones:
  "takeWhile isdec (replicate n CHR ''1'' @ '';'') = replicate n CHR ''1''"
  by (induction n) simp_all

lemma charref_len_ones:
  "0 < n \<Longrightarrow> charref_len (CHR ''#'' # replicate n CHR ''1'' @ '';'') = n + 2"
  by (simp add: charref_len_def takeWhile_ones semicolon_def)

lemma replace_charref_ones:
  "4300 < n \<Longrightarrow> replace_charref_xml (CHR ''#'' # replicate n CHR ''1'' @ '';'') = Inl ValueError"
  by (simp add: replace_charref_xml_def takeWhile_ones)

lemma unescape_ones:
  assumes "4300 < n"
  shows "unescape replace_charref_xml (''&#'' @ replicate n CHR ''1'' @ '';'') = Inl ValueError"
proof -
  let ?cs = "CHR ''#'' # replicate n CHR ''1'' @ '';''"
  from assms have l: "charref_len ?cs = n + 2" by (simp add: charref_len_ones)
  have t: "take (n + 2) ?cs = ?cs" by simp
  have "charref_sub replace_charref_xml (CHR ''&'' # ?cs) = Inl ValueError"
    using assms by (simp only: charref_sub.simps l t replace_charref_ones) simp
  then show ?thesis by (simp add: unescape_def)
qed

lemma strip_long_reference: "strip long_reference = long_reference"
  by (rule strip_fixed) (simp add: long_reference_def isspace_def)

text \<open>
  C1. The parser is meant never to raise, and it lets the exception of \<^verbatim>\<open>html.unescape\<close>
  through: on a text that is a decimal character reference of 4301 digits the first parse
  fails, strategy B unescapes the text outside of any \<^verbatim>\<open>try\<close>, the library's \<^verbatim>\<open>int\<close> call
  raises \<^verbatim>\<open>ValueError\<close>, and the exception leaves the function.
\<close>

theorem parse_raises_on_long_reference:
  "parse_steps_from_tcm_field fromstring_docs replace_charref_xml (Some long_reference)
     = Inl (Raised ValueError)"
proof -
  have n: "long_reference \<noteq> []" by (simp add: long_reference_def)
  have a: "try_parse fromstring_docs long_reference = None"
    by (simp add: try_parse_def fromstring_docs_def long_reference_def doc_open_app_def
        doc_escaped_tag_def)
  have "unescape replace_charref_xml long_reference = Inl ValueError"
    unfolding long_reference_def by (rule unescape_ones) simp
  then have "strategy_b replace_charref_xml long_reference = Inl ValueError"
    by (simp add: strategy_b_def)
  with a have "parse_root fromstring_docs replace_charref_xml long_reference = Inl ValueError"
    by (simp add: parse_root_def)
  with n show ?thesis
    by (simp add: parse_steps_from_tcm_field_def strip_long_reference)
qed

text \<open>
  C8, as stated, fails: a raw text that parses at once and holds \<^verbatim>\<open>&lt;steps\<close> goes through
  strategy B all the same, and the second parse replaces the first one. Here the first parse
  has one step, the second one fails, and the result is empty.
\<close>

theorem first_parse_replaced_counterexample:
  "map_option (records_of replace_charref_xml) (try_parse fromstring_docs (strip doc_escaped_tag))
     = Some (Inr [\<lparr>action = ''a<steps'', expected = []\<rparr>])
   \<and> parse_steps_from_tcm_field fromstring_docs replace_charref_xml (Some doc_escaped_tag)
       = Inr []"
  by code_simp

text \<open>
  C8, amended. When the raw text parses at once and does not hold \<^verbatim>\<open>&lt;steps\<close> in any
  letter case, the steps are those of that first parse. When it holds \<^verbatim>\<open>&lt;steps\<close>, the
  steps are those of the parse of strategy B, and none when that parse fails.
\<close>

theorem first_parse_kept:
  "(s \<noteq> [] \<and> fromstring (strip s) = Inr rt
      \<and> \<not> contains ''&lt;steps'' (map lower (strip s))
    \<longrightarrow> parse_steps_from_tcm_field fromstring replace_charref (Some s)
          = raised (records_of replace_charref rt))
   \<and> (s \<noteq> [] \<and> contains ''&lt;steps'' (map lower (strip s))
      \<and> strategy_b replace_charref (strip s) = Inr xml_blob
    \<longrightarrow> parse_steps_from_tcm_field fromstring replace_charref (Some s)
          = (case try_parse fromstring xml_blob of
               None \<Rightarrow> Inr []
             | Some rt' \<Rightarrow> raised (records_of replace_charref rt')))"
  by (auto simp: parse_steps_from_tcm_field_def parse_root_def try_parse_def Let_def
      split: option.splits sum.splits)

theorem first_parse_kept_witness:
  "doc_open_app \<noteq> []
   \<and> (\<exists>rt. fromstring_docs (strip doc_open_app) = Inr rt
         \<and> records_of replace_charref_xml rt = Inr [\<lparr>action = ''Open App'', expected = []\<rparr>])
   \<and> \<not> contains ''&lt;steps'' (map lower (strip doc_open_app))
   \<and> parse_steps_from_tcm_field fromstring_docs replace_charref_xml (Some doc_open_app)
       = Inr [\<lparr>action = ''Open App'', expected = []\<rparr>]
   \<and> doc_escaped_tag \<noteq> []
   \<and> contains ''&lt;steps'' (map lower (strip doc_escaped_tag))
   \<and> (\<exists>xml_blob. strategy_b replace_charref_xml (strip doc_escaped_tag) = Inr xml_blob
         \<and> try_parse fromstring_docs xml_blob = None)
   \<and> parse_steps_from_tcm_field fromstring_docs replace_charref_xml (Some doc_escaped_tag)
       = Inr []"
proof -
  let ?rt = "Element ''steps'' None
               [Element ''step'' None
                  [Element ''parameterizedString'' (Some ''Open App'') [] None,
                   Element ''parameterizedString'' None [] None] None] None"
  let ?blob = "''<steps><step><parameterizedString>a<steps</parameterizedString></step></steps>''"
  have a: "doc_open_app \<noteq> []" "doc_escaped_tag \<noteq> []"
    by (simp_all add: doc_open_app_def doc_escaped_tag_def)
  have b: "fromstring_docs (strip doc_open_app) = Inr ?rt"
    by code_simp
  have c: "records_of replace_charref_xml ?rt = Inr [\<lparr>action = ''Open App'', expected = []\<rparr>]"
    by code_simp
  have d: "\<not> contains ''&lt;steps'' (map lower (strip doc_open_app))"
    by code_simp
  have e: "contains ''&lt;steps'' (map lower (strip doc_escaped_tag))"
    by code_simp
  have f: "strategy_b replace_charref_xml (strip doc_escaped_tag) = Inr ?blob"
    by code_simp
  have g: "try_parse fromstring_docs ?blob = None"
    by code_simp
  from a b c d e f g
    first_parse_kept [of doc_open_app fromstring_docs ?rt replace_charref_xml]
    first_parse_kept [of doc_escaped_tag fromstring_docs _ replace_charref_xml ?blob]
  show ?thesis by (simp add: raised_def)
qed

end
